theory Spec2Isabelle
  imports Complex_Main "HOL-Library.Product_Lexorder"
begin

section \<open>Strings and characters\<close>

text \<open>
  A Python \<open>str\<close> is modelled as a \<open>string\<close>. A \<open>char\<close> stands for the code point
  of the same number, so the model covers the code points U+0000 to U+00FF; on these
  the three character classes below are the ones Python 3 uses for \<open>str.isspace\<close> (and the
  regular expression class \<open>\s\<close> on \<open>str\<close> patterns), for \<open>[a-z0-9]\<close> and for \<open>str.lower\<close>.
\<close>

definition is_space :: "char \<Rightarrow> bool" where
  "is_space c = (let n = (of_char c :: nat) in
     (9 \<le> n \<and> n \<le> 13) \<or> (28 \<le> n \<and> n \<le> 32) \<or> n = 133 \<or> n = 160)"

definition is_lower_alnum :: "char \<Rightarrow> bool" where
  \<comment> \<open>the class \<open>[a-z0-9]\<close>\<close>
  "is_lower_alnum c = (let n = (of_char c :: nat) in
     (97 \<le> n \<and> n \<le> 122) \<or> (48 \<le> n \<and> n \<le> 57))"

definition is_filename_char :: "char \<Rightarrow> bool" where
  \<comment> \<open>the class \<open>[a-zA-Z0-9._-]\<close>\<close>
  "is_filename_char c = (let n = (of_char c :: nat) in
     (97 \<le> n \<and> n \<le> 122) \<or> (65 \<le> n \<and> n \<le> 90) \<or> (48 \<le> n \<and> n \<le> 57)
     \<or> n = 46 \<or> n = 95 \<or> n = 45)"

definition lower_char :: "char \<Rightarrow> char" where
  "lower_char c = (let n = (of_char c :: nat) in
     if (65 \<le> n \<and> n \<le> 90) \<or> (192 \<le> n \<and> n \<le> 222 \<and> n \<noteq> 215)
     then char_of (n + 32) else c)"

definition lower :: "string \<Rightarrow> string" where
  "lower s = map lower_char s"

definition strip :: "string \<Rightarrow> string" where
  \<comment> \<open>\<open>str.strip()\<close>: whitespace removed from both ends\<close>
  "strip s = rev (dropWhile is_space (rev (dropWhile is_space s)))"

definition strip_chars :: "char \<Rightarrow> string \<Rightarrow> string" where
  \<comment> \<open>\<open>str.strip(c)\<close> for a one-character argument\<close>
  "strip_chars c s = rev (dropWhile (\<lambda>x. x = c) (rev (dropWhile (\<lambda>x. x = c) s)))"

definition endswith :: "string \<Rightarrow> string \<Rightarrow> bool" where
  "endswith s suffix = (length suffix \<le> length s \<and> drop (length s - length suffix) s = suffix)"

text \<open>
  \<open>re.sub(cls+, rep, s)\<close> for a character class: every maximal run of characters of the
  class is replaced by one copy of \<open>rep\<close>.
\<close>

function sub_runs :: "(char \<Rightarrow> bool) \<Rightarrow> char \<Rightarrow> string \<Rightarrow> string" where
  "sub_runs cls rep [] = []"
| "sub_runs cls rep (c # cs) =
     (if cls c then rep # sub_runs cls rep (dropWhile cls cs) else c # sub_runs cls rep cs)"
  by pat_completeness auto
termination
  by (relation "measure (\<lambda>(cls, rep, s). length s)")
     (auto simp: less_Suc_eq_le length_dropWhile_le)

section \<open>Text normalizer (paper\_lookup.py)\<close>

text \<open>
  \<open>normalize_text(value)\<close>: lower-case, replace every character outside \<open>[a-z0-9\s]\<close> by a
  space, collapse whitespace runs to one space, strip. The source's \<open>value or ""\<close> turns
  \<open>None\<close> into the empty string; callers of the model pass \<open>''''\<close> for \<open>None\<close>.
\<close>

definition normalize_text :: "string \<Rightarrow> string" where
  "normalize_text v =
     (let normalized = map (\<lambda>c. if is_lower_alnum c \<or> is_space c then c else CHR '' '') (lower v)
      in strip (sub_runs is_space (CHR '' '') normalized))"

definition normalize_last_name :: "string \<Rightarrow> string" where
  \<comment> \<open>\<open>normalize_text(value).replace(" ", "")\<close>\<close>
  "normalize_last_name v = filter (\<lambda>c. c \<noteq> CHR '' '') (normalize_text v)"

section \<open>difflib.SequenceMatcher (Python standard library)\<close>

text \<open>
  \<open>title_similarity\<close> calls \<open>SequenceMatcher(None, a, b).ratio()\<close>. The functions below follow
  CPython's \<open>difflib.py\<close>: \<open>__chain_b\<close>, \<open>find_longest_match\<close>, \<open>get_matching_blocks\<close>, \<open>ratio\<close>.
\<close>

text \<open>
  \<open>__chain_b\<close> with \<open>isjunk = None\<close> and \<open>autojunk = True\<close>: for every element of \<open>b\<close> the
  ascending list of its positions, except that in a sequence of at least 200 elements the
  elements occurring more than \<open>len(b) // 100 + 1\<close> times ("popular") lose their entry; no
  element is junk.
\<close>

definition popular :: "string \<Rightarrow> char \<Rightarrow> bool" where
  "popular b elt = (length b \<ge> 200 \<and> count_list b elt > length b div 100 + 1)"

definition b2j :: "string \<Rightarrow> char \<Rightarrow> nat list" where
  "b2j b elt = (if popular b elt then [] else filter (\<lambda>j. b ! j = elt) [0..<length b])"

definition isbjunk :: "char \<Rightarrow> bool" where
  "isbjunk elt = False"

type_synonym block = "nat \<times> nat \<times> nat"

definition get_prev :: "(nat \<rightharpoonup> nat) \<Rightarrow> nat \<Rightarrow> nat" where
  \<comment> \<open>\<open>j2len.get(j-1, 0)\<close>; the key \<open>-1\<close> is never in the dictionary\<close>
  "get_prev j2len j = (if j = 0 then 0 else case j2len (j - 1) of None \<Rightarrow> 0 | Some v \<Rightarrow> v)"

text \<open>
  \<open>find_longest_match\<close>. The inner \<open>for j in b2j.get(a[i], nothing)\<close> loop threads the best
  block and \<open>newj2len\<close>; the outer \<open>for i in range(alo, ahi)\<close> loop threads the best block and
  \<open>j2len\<close>. Indices are natural numbers: \<open>i-k+1\<close> is written \<open>i + 1 - k\<close>, and \<open>k\<close> never
  exceeds \<open>i + 1\<close> (lemma \<open>inner_loop_bounds\<close>).
\<close>

fun inner_loop :: "nat \<Rightarrow> nat \<Rightarrow> nat \<Rightarrow> (nat \<rightharpoonup> nat) \<Rightarrow> nat list
    \<Rightarrow> block \<times> (nat \<rightharpoonup> nat) \<Rightarrow> block \<times> (nat \<rightharpoonup> nat)" where
  "inner_loop i blo bhi j2len [] st = st"
| "inner_loop i blo bhi j2len (j # js) ((besti, bestj, bestsize), newj2len) =
     (if j < blo then inner_loop i blo bhi j2len js ((besti, bestj, bestsize), newj2len)
      else if j \<ge> bhi then ((besti, bestj, bestsize), newj2len)
      else
        let k = get_prev j2len j + 1
        in inner_loop i blo bhi j2len js
             (if k > bestsize then (i + 1 - k, j + 1 - k, k) else (besti, bestj, bestsize),
              newj2len(j \<mapsto> k)))"

fun outer_loop :: "string \<Rightarrow> string \<Rightarrow> nat \<Rightarrow> nat \<Rightarrow> nat list
    \<Rightarrow> block \<times> (nat \<rightharpoonup> nat) \<Rightarrow> block \<times> (nat \<rightharpoonup> nat)" where
  "outer_loop a b blo bhi [] st = st"
| "outer_loop a b blo bhi (i # is) (best, j2len) =
     outer_loop a b blo bhi is (inner_loop i blo bhi j2len (b2j b (a ! i)) (best, Map.empty))"

text \<open>The four \<open>while\<close> loops that extend the best block; \<open>p\<close> is the test on \<open>b[bestj-1]\<close>.\<close>

function extend_left :: "(char \<Rightarrow> bool) \<Rightarrow> string \<Rightarrow> string \<Rightarrow> nat \<Rightarrow> nat \<Rightarrow> block \<Rightarrow> block" where
  "extend_left p a b alo blo (besti, bestj, bestsize) =
     (if besti > alo \<and> bestj > blo \<and> p (b ! (bestj - 1)) \<and> a ! (besti - 1) = b ! (bestj - 1)
      then extend_left p a b alo blo (besti - 1, bestj - 1, bestsize + 1)
      else (besti, bestj, bestsize))"
  by pat_completeness auto
termination
  by (relation "measure (\<lambda>(p, a, b, alo, blo, besti, bestj, bestsize). besti)") auto

function extend_right :: "(char \<Rightarrow> bool) \<Rightarrow> string \<Rightarrow> string \<Rightarrow> nat \<Rightarrow> nat \<Rightarrow> block \<Rightarrow> block" where
  "extend_right p a b ahi bhi (besti, bestj, bestsize) =
     (if besti + bestsize < ahi \<and> bestj + bestsize < bhi \<and> p (b ! (bestj + bestsize))
         \<and> a ! (besti + bestsize) = b ! (bestj + bestsize)
      then extend_right p a b ahi bhi (besti, bestj, bestsize + 1)
      else (besti, bestj, bestsize))"
  by pat_completeness auto
termination
  by (relation "measure (\<lambda>(p, a, b, ahi, bhi, besti, bestj, bestsize). ahi - (besti + bestsize))") auto

declare extend_left.simps [simp del] extend_right.simps [simp del]

definition find_longest_match :: "string \<Rightarrow> string \<Rightarrow> nat \<Rightarrow> nat \<Rightarrow> nat \<Rightarrow> nat \<Rightarrow> block" where
  "find_longest_match a b alo ahi blo bhi =
     (let best = fst (outer_loop a b blo bhi [alo..<ahi] ((alo, blo, 0), Map.empty));
          best = extend_left (\<lambda>c. \<not> isbjunk c) a b alo blo best;
          best = extend_right (\<lambda>c. \<not> isbjunk c) a b ahi bhi best;
          best = extend_left isbjunk a b alo blo best;
          best = extend_right isbjunk a b ahi bhi best
      in best)"

subsection \<open>The longest match lies inside the searched ranges\<close>

lemma inner_loop_step:
  "\<not> j < blo \<Longrightarrow> \<not> bhi \<le> j \<Longrightarrow>
   inner_loop i blo bhi j2len (j # js) ((bi, bj, bs), new) =
   inner_loop i blo bhi j2len js
     (if get_prev j2len j + 1 > bs
      then (i + 1 - (get_prev j2len j + 1), j + 1 - (get_prev j2len j + 1), get_prev j2len j + 1)
      else (bi, bj, bs), new(j \<mapsto> get_prev j2len j + 1))"
  by (simp add: Let_def)

lemma inner_loop_bounds:
  assumes "alo \<le> i" "i < ahi"
    and "\<forall>j v. j2len j = Some v \<longrightarrow> blo \<le> j \<and> j < bhi \<and> v \<le> i - alo \<and> v \<le> j + 1 - blo"
    and "alo \<le> bi \<and> bi + bs \<le> ahi \<and> blo \<le> bj \<and> bj + bs \<le> bhi"
    and "\<forall>j v. new j = Some v \<longrightarrow> blo \<le> j \<and> j < bhi \<and> v \<le> i + 1 - alo \<and> v \<le> j + 1 - blo"
    and "inner_loop i blo bhi j2len js ((bi, bj, bs), new) = ((bi', bj', bs'), new')"
  shows "(alo \<le> bi' \<and> bi' + bs' \<le> ahi \<and> blo \<le> bj' \<and> bj' + bs' \<le> bhi) \<and>
         (\<forall>j v. new' j = Some v \<longrightarrow> blo \<le> j \<and> j < bhi \<and> v \<le> i + 1 - alo \<and> v \<le> j + 1 - blo)"
  using assms(4-6)
proof (induction js arbitrary: bi bj bs new)
  case Nil
  then show ?case by simp
next
  case (Cons j js)
  show ?case
  proof (cases "j < blo")
    case True
    with Cons.prems have "inner_loop i blo bhi j2len js ((bi, bj, bs), new) = ((bi', bj', bs'), new')"
      by simp
    from Cons.IH[OF Cons.prems(1) Cons.prems(2) this] show ?thesis .
  next
    case False
    note jblo = this
    show ?thesis
    proof (cases "j \<ge> bhi")
      case True
      with jblo Cons.prems show ?thesis by simp
    next
      case False
      define k where "k = get_prev j2len j + 1"
      have kb: "k \<le> i + 1 - alo \<and> k \<le> j + 1 - blo \<and> 1 \<le> k"
      proof (cases "j = 0 \<or> j2len (j - 1) = None")
        case True
        then have "k = 1" by (auto simp: k_def get_prev_def)
        with assms(1) jblo show ?thesis by simp arith
      next
        case False
        then obtain v where v: "j2len (j - 1) = Some v" "j \<noteq> 0" by auto
        with assms(3) have "blo \<le> j - 1 \<and> v \<le> i - alo \<and> v \<le> j - 1 + 1 - blo" by blast
        moreover from v have "k = v + 1" by (simp add: k_def get_prev_def)
        ultimately show ?thesis using v assms(1) by simp arith
      qed
      let ?best = "if k > bs then (i + 1 - k, j + 1 - k, k) else (bi, bj, bs)"
      obtain ci cj cs where c: "?best = (ci, cj, cs)" by (cases ?best) auto
      have "inner_loop i blo bhi j2len (j # js) ((bi, bj, bs), new) =
            inner_loop i blo bhi j2len js (?best, new(j \<mapsto> k))"
        unfolding k_def by (rule inner_loop_step[OF jblo False])
      then have step: "inner_loop i blo bhi j2len js ((ci, cj, cs), new(j \<mapsto> k)) = ((bi', bj', bs'), new')"
        using Cons.prems(3) c by (simp only:)
      have b1: "alo \<le> ci \<and> ci + cs \<le> ahi \<and> blo \<le> cj \<and> cj + cs \<le> bhi"
        using c kb Cons.prems(1) assms(1,2) jblo False by (auto split: if_splits)
      have b2: "\<forall>j' v. (new(j \<mapsto> k)) j' = Some v \<longrightarrow> blo \<le> j' \<and> j' < bhi \<and> v \<le> i + 1 - alo \<and> v \<le> j' + 1 - blo"
        using Cons.prems(2) kb jblo False by auto
      from Cons.IH[OF b1 b2 step] show ?thesis .
    qed
  qed
qed

lemma outer_loop_bounds:
  assumes "\<forall>i \<in> set is. alo \<le> i \<and> i < ahi"
    and "\<forall>j v. j2len j = Some v \<longrightarrow> blo \<le> j \<and> j < bhi \<and> (is \<noteq> [] \<longrightarrow> v \<le> hd is - alo) \<and> v \<le> j + 1 - blo"
    and "alo \<le> bi \<and> bi + bs \<le> ahi \<and> blo \<le> bj \<and> bj + bs \<le> bhi"
    and "\<forall>n. n < length is - 1 \<longrightarrow> is ! (Suc n) = Suc (is ! n)"
    and "fst (outer_loop a b blo bhi is ((bi, bj, bs), j2len)) = (bi', bj', bs')"
  shows "alo \<le> bi' \<and> bi' + bs' \<le> ahi \<and> blo \<le> bj' \<and> bj' + bs' \<le> bhi"
  using assms
proof (induction "is" arbitrary: bi bj bs j2len)
  case Nil
  then show ?case by simp
next
  case (Cons i "is")
  obtain ci cj cs new where r: "inner_loop i blo bhi j2len (b2j b (a ! i)) ((bi, bj, bs), Map.empty) = ((ci, cj, cs), new)"
    by (metis prod_cases3 surj_pair)
  have i: "alo \<le> i" "i < ahi" using Cons.prems(1) by auto
  have j2: "\<forall>j v. j2len j = Some v \<longrightarrow> blo \<le> j \<and> j < bhi \<and> v \<le> i - alo \<and> v \<le> j + 1 - blo"
    using Cons.prems(2) by simp
  have e: "\<forall>j v. Map.empty j = Some v \<longrightarrow> blo \<le> j \<and> j < bhi \<and> v \<le> i + 1 - alo \<and> v \<le> j + 1 - blo"
    by simp
  note ib = inner_loop_bounds[OF i j2 Cons.prems(3) e r]
  have hd: "is \<noteq> [] \<Longrightarrow> hd is = Suc i"
    using Cons.prems(4)[rule_format, of 0] by (cases "is") auto
  have n2: "\<forall>j v. new j = Some v \<longrightarrow> blo \<le> j \<and> j < bhi \<and> (is \<noteq> [] \<longrightarrow> v \<le> hd is - alo) \<and> v \<le> j + 1 - blo"
  proof (intro allI impI)
    fix j v assume "new j = Some v"
    with ib have "blo \<le> j \<and> j < bhi \<and> v \<le> i + 1 - alo \<and> v \<le> j + 1 - blo" by blast
    with hd i show "blo \<le> j \<and> j < bhi \<and> (is \<noteq> [] \<longrightarrow> v \<le> hd is - alo) \<and> v \<le> j + 1 - blo"
      by auto
  qed
  have cons: "\<forall>n. n < length is - 1 \<longrightarrow> is ! (Suc n) = Suc (is ! n)"
    using Cons.prems(4) by (metis (no_types, lifting) Suc_less_eq diff_Suc_1 length_Cons less_diff_conv nth_Cons_Suc add.commute plus_1_eq_Suc)
  show ?case
    using Cons.IH[OF _ n2 conjunct1[OF ib] cons] Cons.prems(1,5) r by simp
qed


lemma extend_left_bounds:
  "extend_left p a b alo blo (bi, bj, bs) = (bi', bj', bs') \<Longrightarrow>
   alo \<le> bi \<and> bi + bs \<le> ahi \<and> blo \<le> bj \<and> bj + bs \<le> bhi \<Longrightarrow>
   alo \<le> bi' \<and> bi' + bs' \<le> ahi \<and> blo \<le> bj' \<and> bj' + bs' \<le> bhi"
proof (induction p a b alo blo "(bi, bj, bs)" arbitrary: bi bj bs rule: extend_left.induct)
  case (1 p a b alo blo besti bestj bestsize)
  show ?case
  proof (cases "besti > alo \<and> bestj > blo \<and> p (b ! (bestj - 1)) \<and> a ! (besti - 1) = b ! (bestj - 1)")
    case True
    with 1(2) have "extend_left p a b alo blo (besti - 1, bestj - 1, bestsize + 1) = (bi', bj', bs')"
      by (subst (asm) extend_left.simps) simp
    moreover from True 1(3) have "alo \<le> besti - 1 \<and> besti - 1 + (bestsize + 1) \<le> ahi \<and>
        blo \<le> bestj - 1 \<and> bestj - 1 + (bestsize + 1) \<le> bhi" by auto
    ultimately show ?thesis using 1(1)[OF True] by blast
  next
    case False
    with 1(2) have "(besti, bestj, bestsize) = (bi', bj', bs')"
      by (subst (asm) extend_left.simps) (simp split: if_splits)
    with 1(3) show ?thesis by simp
  qed
qed

lemma extend_right_bounds:
  "extend_right p a b ahi bhi (bi, bj, bs) = (bi', bj', bs') \<Longrightarrow>
   alo \<le> bi \<and> bi + bs \<le> ahi \<and> blo \<le> bj \<and> bj + bs \<le> bhi \<Longrightarrow>
   alo \<le> bi' \<and> bi' + bs' \<le> ahi \<and> blo \<le> bj' \<and> bj' + bs' \<le> bhi"
proof (induction p a b ahi bhi "(bi, bj, bs)" arbitrary: bi bj bs rule: extend_right.induct)
  case (1 p a b ahi bhi besti bestj bestsize)
  show ?case
  proof (cases "besti + bestsize < ahi \<and> bestj + bestsize < bhi \<and> p (b ! (bestj + bestsize))
         \<and> a ! (besti + bestsize) = b ! (bestj + bestsize)")
    case True
    with 1(2) have "extend_right p a b ahi bhi (besti, bestj, bestsize + 1) = (bi', bj', bs')"
      by (subst (asm) extend_right.simps) simp
    moreover from True 1(3) have "alo \<le> besti \<and> besti + (bestsize + 1) \<le> ahi \<and>
        blo \<le> bestj \<and> bestj + (bestsize + 1) \<le> bhi" by auto
    ultimately show ?thesis using 1(1)[OF True] by blast
  next
    case False
    with 1(2) have "(besti, bestj, bestsize) = (bi', bj', bs')"
      by (subst (asm) extend_right.simps) (simp split: if_splits)
    with 1(3) show ?thesis by simp
  qed
qed

lemma find_longest_match_bounds:
  assumes "alo \<le> ahi" "blo \<le> bhi" "find_longest_match a b alo ahi blo bhi = (i, j, k)"
  shows "alo \<le> i \<and> i + k \<le> ahi \<and> blo \<le> j \<and> j + k \<le> bhi"
proof -
  obtain i0 j0 k0 where r0: "fst (outer_loop a b blo bhi [alo..<ahi] ((alo, blo, 0), Map.empty)) = (i0, j0, k0)"
    by (metis prod_cases3)
  have b0: "alo \<le> i0 \<and> i0 + k0 \<le> ahi \<and> blo \<le> j0 \<and> j0 + k0 \<le> bhi"
    by (rule outer_loop_bounds[OF _ _ _ _ r0]) (use assms(1,2) in \<open>auto simp: nth_upt\<close>)
  obtain i1 j1 k1 where r1: "extend_left (\<lambda>c. \<not> isbjunk c) a b alo blo (i0, j0, k0) = (i1, j1, k1)"
    by (metis prod_cases3)
  note b1 = extend_left_bounds[OF r1 b0]
  obtain i2 j2 k2 where r2: "extend_right (\<lambda>c. \<not> isbjunk c) a b ahi bhi (i1, j1, k1) = (i2, j2, k2)"
    by (metis prod_cases3)
  note b2 = extend_right_bounds[OF r2 b1]
  obtain i3 j3 k3 where r3: "extend_left isbjunk a b alo blo (i2, j2, k2) = (i3, j3, k3)"
    by (metis prod_cases3)
  note b3 = extend_left_bounds[OF r3 b2]
  have "extend_right isbjunk a b ahi bhi (i3, j3, k3) = (i, j, k)"
    using assms(3) r0 r1 r2 r3 by (simp add: find_longest_match_def Let_def)
  from extend_right_bounds[OF this b3] show ?thesis .
qed

lemma inner_loop_empty_range:
  "bhi \<le> blo \<Longrightarrow> inner_loop i blo bhi j2len js ((bi, bj, bs), new) = ((bi, bj, bs), new)"
  by (induction js) auto

lemma outer_loop_empty_range:
  "bhi \<le> blo \<Longrightarrow> fst (outer_loop a b blo bhi is (best, j2len)) = best"
  by (induction "is" arbitrary: j2len; cases best) (simp_all add: inner_loop_empty_range)

lemma find_longest_match_empty_range:
  assumes "ahi < alo \<or> bhi < blo"
  shows "find_longest_match a b alo ahi blo bhi = (alo, blo, 0)"
proof -
  have "fst (outer_loop a b blo bhi [alo..<ahi] ((alo, blo, 0), Map.empty)) = (alo, blo, 0)"
    using assms by (auto simp: outer_loop_empty_range)
  moreover have "extend_right p a b ahi bhi (alo, blo, 0) = (alo, blo, 0)" for p
    using assms by (subst extend_right.simps) auto
  moreover have "extend_left p a b alo blo (alo, blo, 0) = (alo, blo, 0)" for p
    by (subst extend_left.simps) simp
  ultimately show ?thesis by (simp add: find_longest_match_def)
qed

lemma find_longest_match_inside:
  assumes "find_longest_match a b alo ahi blo bhi = (i, j, k)" "k \<noteq> 0"
  shows "alo \<le> i \<and> i + k \<le> ahi \<and> blo \<le> j \<and> j + k \<le> bhi"
proof (cases "ahi < alo \<or> bhi < blo")
  case True
  from find_longest_match_empty_range[OF this] assms show ?thesis by simp
next
  case False
  then show ?thesis using find_longest_match_bounds[OF _ _ assms(1)] by simp
qed

text \<open>
  The \<open>while queue\<close> loop of \<open>get_matching_blocks\<close>. The Python list \<open>queue\<close> is used as a
  stack (\<open>pop()\<close> and \<open>append\<close> work at its end); here the head of the list is that end.
\<close>

function blocks_loop :: "string \<Rightarrow> string \<Rightarrow> (nat \<times> nat \<times> nat \<times> nat) list \<Rightarrow> block list \<Rightarrow> block list" where
  "blocks_loop a b [] matching_blocks = matching_blocks"
| "blocks_loop a b ((alo, ahi, blo, bhi) # queue) matching_blocks =
     (case find_longest_match a b alo ahi blo bhi of (i, j, k) \<Rightarrow>
        if k \<noteq> 0 then
          blocks_loop a b
            ((if i + k < ahi \<and> j + k < bhi then [(i + k, ahi, j + k, bhi)] else []) @
             (if alo < i \<and> blo < j then [(alo, i, blo, j)] else []) @ queue)
            (matching_blocks @ [(i, j, k)])
        else blocks_loop a b queue matching_blocks)"
  by pat_completeness auto
termination
proof (relation "measure (\<lambda>(a, b, queue, mb). sum_list (map (\<lambda>(alo, ahi, blo, bhi). 2 * (ahi - alo) + 1) queue))",
    goal_cases)
  case 1 show ?case by simp
next
  case (2 a b alo ahi blo bhi queue mb i y j k)
  then have "find_longest_match a b alo ahi blo bhi = (i, j, k)" by simp
  from find_longest_match_inside[OF this \<open>k \<noteq> 0\<close>] \<open>k \<noteq> 0\<close> show ?case by auto
next
  case 3 then show ?case by simp
qed

text \<open>The loop that merges adjacent blocks, and the rest of \<open>get_matching_blocks\<close>.\<close>

fun collapse :: "block list \<Rightarrow> block \<Rightarrow> block list \<Rightarrow> block list" where
  "collapse [] (i1, j1, k1) non_adjacent =
     (if k1 \<noteq> 0 then non_adjacent @ [(i1, j1, k1)] else non_adjacent)"
| "collapse ((i2, j2, k2) # rest) (i1, j1, k1) non_adjacent =
     (if i1 + k1 = i2 \<and> j1 + k1 = j2 then collapse rest (i1, j1, k1 + k2) non_adjacent
      else collapse rest (i2, j2, k2)
             (if k1 \<noteq> 0 then non_adjacent @ [(i1, j1, k1)] else non_adjacent))"

definition get_matching_blocks :: "string \<Rightarrow> string \<Rightarrow> block list" where
  "get_matching_blocks a b =
     (let la = length a; lb = length b;
          matching_blocks = sort (blocks_loop a b [(0, la, 0, lb)] [])
      in collapse matching_blocks (0, 0, 0) [] @ [(la, lb, 0)])"

text \<open>\<open>ratio()\<close> with \<open>_calculate_ratio\<close>.\<close>

definition ratio :: "string \<Rightarrow> string \<Rightarrow> real" where
  "ratio a b =
     (let matches = sum_list (map (\<lambda>(i, j, k). k) (get_matching_blocks a b));
          len = length a + length b
      in if len \<noteq> 0 then 2 * real matches / real len else 1)"


section \<open>Similarity scorer (paper\_lookup.py)\<close>

text \<open>An absent or \<open>None\<close> title is passed as the empty string: both are falsy in the first test.\<close>

definition title_similarity :: "string \<Rightarrow> string \<Rightarrow> real" where
  "title_similarity left right =
     (if left = [] \<or> right = [] then 0
      else ratio (normalize_text left) (normalize_text right))"

text \<open>
  A Crossref work item. \<open>cr_title\<close> is \<open>item.get("title") or []\<close> and \<open>author\<close> is
  \<open>item.get("author") or []\<close>; an entry of the author list may be \<open>null\<close> (\<open>None\<close>), and
  \<open>family\<close> is \<open>None\<close> when the key is absent or \<open>null\<close>.
\<close>

record crossref_author =
  given :: "string option"
  family :: "string option"

record crossref_item =
  cr_title :: "string list"
  author :: "crossref_author option list"
  DOI :: "string option"

definition author_family :: "crossref_author option \<Rightarrow> string" where
  \<comment> \<open>\<open>(author or {}).get("family", "")\<close>, with \<open>None\<close> read as \<open>""\<close> by \<open>normalize_text\<close>\<close>
  "author_family a = (case a of None \<Rightarrow> [] | Some r \<Rightarrow> (case family r of None \<Rightarrow> [] | Some f \<Rightarrow> f))"

definition score_crossref_item :: "crossref_item \<Rightarrow> string \<Rightarrow> string \<Rightarrow> real" where
  "score_crossref_item item requested_title requested_first_author_last_name =
     (let candidate_title = (case cr_title item of [] \<Rightarrow> [] | t # _ \<Rightarrow> t);
          score = title_similarity candidate_title requested_title;
          target_last_name = normalize_last_name requested_first_author_last_name
      in if target_last_name = [] then score
         else case author item of
             [] \<Rightarrow> score - 0.05
           | first # _ \<Rightarrow>
               let first_author_last_name = normalize_last_name (author_family first)
               in if first_author_last_name \<noteq> [] \<and> first_author_last_name = target_last_name
                  then score + 0.30
                  else if list_ex (\<lambda>a. normalize_last_name (author_family a) = target_last_name)
                            (author item)
                  then score + 0.10
                  else score)"

text \<open>
  The selection loop of \<open>pick_best_crossref_item\<close> and \<open>pick_best_europe_pmc_result\<close>, which
  differ only in the scoring function \<open>sc\<close>.
\<close>

fun pick_loop :: "('a \<Rightarrow> real) \<Rightarrow> 'a list \<Rightarrow> 'a option \<times> real \<Rightarrow> 'a option \<times> real" where
  "pick_loop sc [] (best_item, best_score) = (best_item, best_score)"
| "pick_loop sc (item # items) (best_item, best_score) =
     (if sc item > best_score then pick_loop sc items (Some item, sc item)
      else pick_loop sc items (best_item, best_score))"

definition pick_best_crossref_item ::
  "crossref_item list \<Rightarrow> string \<Rightarrow> string \<Rightarrow> crossref_item option \<times> real" where
  "pick_best_crossref_item items requested_title requested_first_author_last_name =
     (case pick_loop (\<lambda>item. score_crossref_item item requested_title
                                requested_first_author_last_name) items (None, -1) of
        (best_item, best_score) \<Rightarrow>
          if best_score < 0.45 then (None, 0) else (best_item, best_score))"

text \<open>
  A Europe PMC result. \<open>firstAuthor\<close> is read with \<open>str(result.get("firstAuthor", ""))\<close>, so
  an absent key, a \<open>null\<close> and a string are told apart; an entry of the full-text list may
  be \<open>null\<close>, and its \<open>url\<close> and \<open>documentStyle\<close> are \<open>None\<close> when absent or \<open>null\<close>.
\<close>

datatype json_field = Absent | Null | Str string

fun py_str :: "json_field \<Rightarrow> string" where
  \<comment> \<open>\<open>str(result.get(key, ""))\<close>\<close>
  "py_str Absent = []"
| "py_str Null = ''None''"
| "py_str (Str s) = s"

record full_text_url =
  ft_url :: "string option"
  documentStyle :: "string option"

record europe_pmc_result =
  epmc_title :: "string option"
  firstAuthor :: json_field
  fullTextUrl :: "full_text_url option list"
  pmcid :: "string option"

definition split_first :: "string \<Rightarrow> string" where
  \<comment> \<open>\<open>s.split(" ")[0]\<close>: the part before the first space character\<close>
  "split_first s = takeWhile (\<lambda>c. c \<noteq> CHR '' '') s"

definition score_europe_pmc_result :: "europe_pmc_result \<Rightarrow> string \<Rightarrow> string \<Rightarrow> real" where
  "score_europe_pmc_result result requested_title requested_first_author_last_name =
     (let score = title_similarity (case epmc_title result of None \<Rightarrow> [] | Some t \<Rightarrow> t)
                    requested_title;
          target_last_name = normalize_last_name requested_first_author_last_name
      in if target_last_name = [] then score
         else
           let first_author_raw = strip (py_str (firstAuthor result));
               first_author_last_name = split_first first_author_raw;
               first_author = normalize_last_name first_author_last_name
           in if first_author \<noteq> [] \<and> first_author = target_last_name then score + 0.30
              else score)"

definition pick_best_europe_pmc_result ::
  "europe_pmc_result list \<Rightarrow> string \<Rightarrow> string \<Rightarrow> europe_pmc_result option \<times> real" where
  "pick_best_europe_pmc_result results requested_title requested_first_author_last_name =
     (case pick_loop (\<lambda>result. score_europe_pmc_result result requested_title
                                  requested_first_author_last_name) results (None, -1) of
        (best_result, best_score) \<Rightarrow>
          if best_score < 0.45 then (None, 0) else (best_result, best_score))"

section \<open>Full-text URL of a Europe PMC result\<close>

definition entry_url :: "full_text_url option \<Rightarrow> string" where
  \<comment> \<open>\<open>(entry or {}).get("url", "")\<close>; \<open>None\<close> is as falsy as \<open>""\<close>\<close>
  "entry_url entry = (case entry of None \<Rightarrow> [] | Some e \<Rightarrow> (case ft_url e of None \<Rightarrow> [] | Some u \<Rightarrow> u))"

definition entry_style :: "full_text_url option \<Rightarrow> string" where
  \<comment> \<open>\<open>((entry or {}).get("documentStyle") or "").lower()\<close>\<close>
  "entry_style entry =
     lower (case entry of None \<Rightarrow> [] | Some e \<Rightarrow> (case documentStyle e of None \<Rightarrow> [] | Some s \<Rightarrow> s))"

fun scan_full_text_urls :: "full_text_url option list \<Rightarrow> string option" where
  "scan_full_text_urls [] = None"
| "scan_full_text_urls (entry # entries) =
     (let u = entry_url entry; style = entry_style entry
      in if u \<noteq> [] \<and> (style = ''pdf'' \<or> endswith (lower u) ''.pdf'') then Some u
         else scan_full_text_urls entries)"

definition extract_europe_pmc_pdf_url :: "europe_pmc_result \<Rightarrow> string option" where
  "extract_europe_pmc_pdf_url result =
     (case scan_full_text_urls (fullTextUrl result) of
        Some u \<Rightarrow> Some u
      | None \<Rightarrow>
          let p = strip (case pmcid result of None \<Rightarrow> [] | Some s \<Rightarrow> s)
          in if p \<noteq> [] then Some (''https://europepmc.org/articles/'' @ p @ ''?pdf=render'')
             else None)"

section \<open>URL deduper\<close>





section \<open>Download filenames (main.py)\<close>

definition sanitize_filename :: "string \<Rightarrow> string" where
  "sanitize_filename raw_title =
     (let cleaned = strip_chars (CHR ''_'') (sub_runs (\<lambda>c. \<not> is_filename_char c) (CHR ''_'') raw_title);
          cleaned = (if cleaned = [] then ''paper'' else cleaned);
          cleaned = (if \<not> endswith (lower cleaned) ''.pdf'' then cleaned @ ''.pdf'' else cleaned)
      in take 140 cleaned)"


section \<open>Matches, discovery results and the download cache\<close>

text \<open>
  A match is the dictionary built by \<open>_build_crossref_match\<close> or \<open>_build_europe_pmc_match\<close>;
  the record has the keys of both, and such a dictionary is never empty, so a present
  match is always truthy. Floating-point scores are modelled as real numbers.
\<close>

record paper_match =
  source :: string
  title :: "string option"
  doi :: "string option"
  publisher :: "string option"
  journal :: "string option"
  year :: "string option"
  authors :: "string list"
  first_author_last_name :: "string option"
  score :: real
  pdf_links :: "string list"
  pdf_url :: "string option"
  is_open_access :: bool

definition pick_primary_match :: "paper_match option \<Rightarrow> paper_match option \<Rightarrow> paper_match option" where
  "pick_primary_match crossref_match europe_pmc_match =
     (case (crossref_match, europe_pmc_match) of
        (Some c, Some e) \<Rightarrow> if score e > score c then Some e else Some c
      | (Some c, None) \<Rightarrow> Some c
      | (None, e) \<Rightarrow> e)"

record discovery_result =
  match :: "paper_match option"
  candidate_urls :: "string list"
  warnings :: "string list"
  crossref_match :: "paper_match option"
  europe_pmc_match :: "paper_match option"

record download_entry =
  url :: string
  filename :: string
  created_at :: real

type_synonym download_cache = "string \<rightharpoonup> download_entry"

definition DOWNLOAD_TTL_SECONDS :: real where
  "DOWNLOAD_TTL_SECONDS = 30 * 60"

definition prune_download_cache :: "real \<Rightarrow> download_cache \<Rightarrow> download_cache" where
  "prune_download_cache now cache =
     (\<lambda>token. case cache token of
        None \<Rightarrow> None
      | Some entry \<Rightarrow> if now - created_at entry > DOWNLOAD_TTL_SECONDS then None else Some entry)"

text \<open>
  \<open>_register_download\<close> reads the clock twice and draws a random token; the three values
  are inputs of the model (\<open>now\<close> for the sweep, \<open>token\<close>, \<open>created\<close> for the new entry).
\<close>

definition register_download ::
  "real \<Rightarrow> string \<Rightarrow> real \<Rightarrow> string \<Rightarrow> string \<Rightarrow> download_cache \<Rightarrow> string \<times> download_cache" where
  "register_download now token created u ttl cache =
     (let cache = prune_download_cache now cache
      in (token, cache(token \<mapsto>
            \<lparr>url = u, filename = sanitize_filename (if ttl = [] then ''paper'' else ttl),
             created_at = created\<rparr>)))"

record lookup_request =
  req_title :: string
  req_first_author_last_name :: string

record download_handle =
  token :: string
  endpoint :: string

record lookup_response =
  resp_match :: "paper_match option"
  resp_candidate_urls :: "string list"
  download_available :: bool
  download :: "download_handle option"
  resp_warnings :: "string list"

datatype http_exception = HTTPException nat string

text \<open>
  The body of the \<open>lookup\<close> endpoint after \<open>discover_paper\<close> has returned \<open>result\<close>. It
  yields the raised exception or the response, and the download cache it leaves.
\<close>

definition lookup ::
  "lookup_request \<Rightarrow> discovery_result \<Rightarrow> real \<Rightarrow> string \<Rightarrow> real \<Rightarrow> download_cache
     \<Rightarrow> (http_exception + lookup_response) \<times> download_cache" where
  "lookup request result now tok created cache =
     (if match result = None \<and> candidate_urls result = [] then
        (Inl (HTTPException 404
           ''No likely match found in the currently configured legal-access sources.''), cache)
      else
        let (dl, cache') =
          (case candidate_urls result of
             [] \<Rightarrow> (None, cache)
           | u # _ \<Rightarrow>
               let ttl = (case match result of
                            None \<Rightarrow> req_title request
                          | Some m \<Rightarrow> (case title m of
                                None \<Rightarrow> req_title request
                              | Some t \<Rightarrow> if t = [] then req_title request else t));
                   (tk, c) = register_download now tok created u ttl cache
               in (Some \<lparr>token = tk, endpoint = ''/api/download/'' @ tk\<rparr>, c))
        in (Inr \<lparr>resp_match = match result, resp_candidate_urls = candidate_urls result,
                 download_available = (dl \<noteq> None), download = dl,
                 resp_warnings = warnings result\<rparr>, cache'))"

definition status_code :: "http_exception + lookup_response \<Rightarrow> nat" where
  \<comment> \<open>the HTTP status of the reply: the exception's code, or 200 for a returned body\<close>
  "status_code r = (case r of Inl (HTTPException code detail) \<Rightarrow> code | Inr body \<Rightarrow> 200)"

section \<open>Auxiliary predicates\<close>

text \<open>The value of \<open>cleaned\<close> in \<open>_sanitize_filename\<close> just before the final slice \<open>[:140]\<close>.\<close>

definition with_extension :: "string \<Rightarrow> string" where
  "with_extension raw_title =
     (let cleaned = strip_chars (CHR ''_'') (sub_runs (\<lambda>c. \<not> is_filename_char c) (CHR ''_'') raw_title);
          cleaned = (if cleaned = [] then ''paper'' else cleaned)
      in (if \<not> endswith (lower cleaned) ''.pdf'' then cleaned @ ''.pdf'' else cleaned))"

subsection \<open>Example values\<close>

definition cr_example :: paper_match where
  "cr_example = \<lparr>source = ''crossref'', title = Some ''A'', doi = None, publisher = None,
     journal = None, year = None, authors = [], first_author_last_name = None, score = 0.9,
     pdf_links = [], pdf_url = None, is_open_access = False\<rparr>"

definition epmc_example :: paper_match where
  "epmc_example = \<lparr>source = ''europe_pmc'', title = Some ''A'', doi = None, publisher = None,
     journal = None, year = None, authors = [], first_author_last_name = None, score = 0.9,
     pdf_links = [], pdf_url = None, is_open_access = True\<rparr>"

definition result_example :: discovery_result where
  "result_example = \<lparr>match = None, candidate_urls = [''https://example.org/a.pdf''],
     warnings = [], crossref_match = None, europe_pmc_match = None\<rparr>"

definition request_example :: lookup_request where
  "request_example = \<lparr>req_title = ''CRISPR screens'', req_first_author_last_name = ''Miller''\<rparr>"

text \<open>A string in which no two whitespace characters are adjacent.\<close>

fun single_spaced :: "string \<Rightarrow> bool" where
  "single_spaced [] = True"
| "single_spaced [c] = True"
| "single_spaced (c # d # cs) = (\<not> (is_space c \<and> is_space d) \<and> single_spaced (d # cs))"

text \<open>The title score of a Crossref item, before the author adjustment.\<close>

definition crossref_base :: "crossref_item \<Rightarrow> string \<Rightarrow> real" where
  "crossref_base item requested_title =
     title_similarity (case cr_title item of [] \<Rightarrow> [] | t # _ \<Rightarrow> t) requested_title"

definition item_wrong :: crossref_item where
  "item_wrong = \<lparr>cr_title = [''Genes''], author = [Some \<lparr>given = None, family = Some ''Wrong''\<rparr>],
     DOI = Some ''10.1000/nope''\<rparr>"

definition item_miller :: crossref_item where
  "item_miller = \<lparr>cr_title = [''Genes''],
     author = [Some \<lparr>given = Some ''A.'', family = Some ''Wrong''\<rparr>,
               Some \<lparr>given = Some ''B.'', family = Some ''Miller''\<rparr>],
     DOI = Some ''10.1000/match''\<rparr>"

text \<open>The title score of a Europe PMC result, before the author bonus.\<close>

definition epmc_base :: "europe_pmc_result \<Rightarrow> string \<Rightarrow> real" where
  "epmc_base result requested_title =
     title_similarity (case epmc_title result of None \<Rightarrow> [] | Some t \<Rightarrow> t) requested_title"

text \<open>
  The first whitespace-separated token of a string, as the specification words it: leading
  whitespace skipped, then everything up to the next whitespace character.
\<close>

definition spec_first_token :: "string \<Rightarrow> string" where
  "spec_first_token s = takeWhile (\<lambda>c. \<not> is_space c) (dropWhile is_space s)"

definition result_tab :: europe_pmc_result where
  "result_tab = \<lparr>epmc_title = Some ''Genes'', firstAuthor = Str (''Smith'' @ [CHR 0x09] @ ''J''),
     fullTextUrl = [], pmcid = None\<rparr>"

definition result_berg :: europe_pmc_result where
  "result_berg = \<lparr>epmc_title = Some ''Genes'', firstAuthor = Str ''van der Berg J'',
     fullTextUrl = [], pmcid = None\<rparr>"

text \<open>
  The test \<open>extract_europe_pmc_pdf_url\<close> applies to an entry of the full-text list, the test
  the specification words (without the non-empty URL), and the fallback viewer URL.
\<close>

definition is_pdf_entry :: "full_text_url option \<Rightarrow> bool" where
  "is_pdf_entry entry = (entry_url entry \<noteq> [] \<and>
     (entry_style entry = ''pdf'' \<or> endswith (lower (entry_url entry)) ''.pdf''))"

definition spec_is_pdf_entry :: "full_text_url option \<Rightarrow> bool" where
  "spec_is_pdf_entry entry =
     (entry_style entry = ''pdf'' \<or> endswith (lower (entry_url entry)) ''.pdf'')"

definition viewer_url :: "europe_pmc_result \<Rightarrow> string option" where
  "viewer_url result =
     (let p = strip (case pmcid result of None \<Rightarrow> [] | Some s \<Rightarrow> s)
      in if p \<noteq> [] then Some (''https://europepmc.org/articles/'' @ p @ ''?pdf=render'') else None)"

definition result_html_pdf :: europe_pmc_result where
  "result_html_pdf = \<lparr>epmc_title = Some ''Genes'', firstAuthor = Str ''Miller J'',
     fullTextUrl = [Some \<lparr>ft_url = Some ''https://example.org/html'', documentStyle = Some ''html''\<rparr>,
                    Some \<lparr>ft_url = Some ''https://example.org/paper.pdf'', documentStyle = Some ''pdf''\<rparr>],
     pmcid = Some ''PMC9999999''\<rparr>"

definition result_empty_url :: europe_pmc_result where
  "result_empty_url = \<lparr>epmc_title = Some ''Genes'', firstAuthor = Str ''Miller J'',
     fullTextUrl = [Some \<lparr>ft_url = Some [], documentStyle = Some ''pdf''\<rparr>,
                    Some \<lparr>ft_url = Some ''https://example.org/b.pdf'', documentStyle = Some ''html''\<rparr>],
     pmcid = None\<rparr>"

text \<open>
  What the selection is to return for a scoring function: nothing and 0 when every score
  is below 0.45 (or there is no candidate); otherwise the first candidate whose score is
  the greatest, with that score.
\<close>

definition selects :: "('a \<Rightarrow> real) \<Rightarrow> 'a list \<Rightarrow> 'a option \<times> real \<Rightarrow> bool" where
  "selects sc items res =
     (if \<forall>x\<in>set items. sc x < 0.45 then res = (None, 0)
      else \<exists>i<length items. res = (Some (items ! i), sc (items ! i)) \<and>
             (\<forall>j<length items. sc (items ! j) \<le> sc (items ! i)) \<and>
             (\<forall>j<i. sc (items ! j) < sc (items ! i)))"

subsection \<open>Discovery orchestrator (paper\_lookup.py)\<close>





subsection \<open>Specification of the deduper's output\<close>






subsection \<open>Quantities used in the analysis of the sequence matcher\<close>

text \<open>
  The total size of a list of blocks; the room a queue of regions leaves in each of the
  two sequences.
\<close>

definition sizes :: "block list \<Rightarrow> nat" where
  "sizes bs = sum_list (map (\<lambda>(i, j, k). k) bs)"

definition a_room :: "(nat \<times> nat \<times> nat \<times> nat) list \<Rightarrow> nat" where
  "a_room queue = sum_list (map (\<lambda>(alo, ahi, blo, bhi). ahi - alo) queue)"

definition b_room :: "(nat \<times> nat \<times> nat \<times> nat) list \<Rightarrow> nat" where
  "b_room queue = sum_list (map (\<lambda>(alo, ahi, blo, bhi). bhi - blo) queue)"

text \<open>
  For a sequence compared with itself: position \<open>j\<close> is visited in row \<open>i\<close> of
  \<open>find_longest_match\<close> when the elements are equal and not popular; \<open>cell\<close> is the value
  the loop stores in \<open>newj2len[j]\<close> there, \<open>run_len\<close> that value or 0 when the position is
  not visited; \<open>prev_ok\<close> says that \<open>j2len\<close> holds the values of the row before row \<open>i\<close>.
\<close>

definition matches_at :: "string \<Rightarrow> nat \<Rightarrow> nat \<Rightarrow> bool" where
  "matches_at a i j = (i < length a \<and> j < length a \<and> a ! i = a ! j \<and> \<not> popular a (a ! i))"

fun cell :: "string \<Rightarrow> nat \<Rightarrow> nat \<Rightarrow> nat" where
  "cell a 0 j = 1"
| "cell a (Suc i) 0 = 1"
| "cell a (Suc i) (Suc j) = (if matches_at a i j then cell a i j else 0) + 1"

definition run_len :: "string \<Rightarrow> nat \<Rightarrow> nat \<Rightarrow> nat" where
  "run_len a i j = (if matches_at a i j then cell a i j else 0)"

definition prev_ok :: "string \<Rightarrow> nat \<Rightarrow> (nat \<rightharpoonup> nat) \<Rightarrow> bool" where
  "prev_ok a i j2len = (\<forall>j. get_prev j2len j + 1 = cell a i j)"

section \<open>The text normalizer is idempotent\<close>

lemma sub_runs_head:
  "s \<noteq> [] \<Longrightarrow> \<not> cls (hd s) \<Longrightarrow> sub_runs cls rep s \<noteq> [] \<and> hd (sub_runs cls rep s) = hd s"
  by (cases s) auto

lemma sub_runs_dropWhile_head:
  "sub_runs cls rep (dropWhile cls cs) = [] \<or> \<not> cls (hd (sub_runs cls rep (dropWhile cls cs)))"
proof (cases "dropWhile cls cs")
  case Nil then show ?thesis by (simp only: sub_runs.simps simp_thms)
next
  case (Cons d ds)
  then have "\<not> cls d" by (metis hd_dropWhile list.sel(1) list.distinct(1))
  with Cons show ?thesis by simp
qed

lemma single_spaced_Cons:
  "single_spaced (c # s) = ((s = [] \<or> \<not> (is_space c \<and> is_space (hd s))) \<and> single_spaced s)"
  by (cases s) auto

lemma single_spaced_sub_runs: "single_spaced (sub_runs is_space (CHR '' '') s)"
proof (induction is_space "CHR '' ''" s rule: sub_runs.induct)
  case 1 show ?case by simp
next
  case (2 c cs)
  show ?case
  proof (cases "is_space c")
    case True
    with 2 sub_runs_dropWhile_head[of is_space "CHR '' ''" cs] show ?thesis
      by (auto simp: single_spaced_Cons)
  next
    case False
    with 2 show ?thesis by (auto simp: single_spaced_Cons)
  qed
qed

lemma set_sub_runs:
  "c \<in> set (sub_runs cls rep s) \<Longrightarrow> c = rep \<or> (c \<in> set s \<and> \<not> cls c)"
proof (induction cls rep s rule: sub_runs.induct)
  case (1 cls rep) then show ?case by simp
next
  case (2 cls rep d ds)
  then show ?case by (auto split: if_splits dest: set_dropWhileD)
qed

lemma sub_runs_fixed:
  "single_spaced s \<Longrightarrow> \<forall>c\<in>set s. is_space c \<longrightarrow> c = CHR '' '' \<Longrightarrow> sub_runs is_space (CHR '' '') s = s"
proof (induction s rule: single_spaced.induct)
  case 1 show ?case by simp
next
  case (2 c) then show ?case by simp
next
  case (3 c d cs)
  then show ?case by auto
qed

lemma single_spaced_append2: "single_spaced (xs @ ys) \<Longrightarrow> single_spaced ys"
  by (induction xs) (auto simp: single_spaced_Cons)

lemma single_spaced_append1: "single_spaced (xs @ ys) \<Longrightarrow> single_spaced xs"
  by (induction xs rule: single_spaced.induct) (auto simp: single_spaced_Cons)

lemma strip_decomp: "\<exists>pre post. s = pre @ strip s @ post"
proof -
  let ?u = "dropWhile is_space s"
  have "s = takeWhile is_space s @ ?u" by simp
  moreover have "?u = rev (dropWhile is_space (rev ?u)) @ rev (takeWhile is_space (rev ?u))"
    by (metis rev_append rev_rev_ident takeWhile_dropWhile_id)
  ultimately show ?thesis unfolding strip_def by metis
qed

lemma strip_strip: "strip (strip s) = strip s"
proof -
  let ?u = "dropWhile is_space s"
  let ?v = "dropWhile is_space (rev ?u)"
  have s: "strip s = rev ?v" by (simp add: strip_def)
  have "dropWhile is_space (rev ?v) = rev ?v"
  proof (cases "?v = []")
    case True
    then have "rev ?v = []" by simp
    then show ?thesis by (simp only: dropWhile.simps)
  next
    case False
    have u: "?u = rev ?v @ rev (takeWhile is_space (rev ?u))"
      by (metis rev_append rev_rev_ident takeWhile_dropWhile_id)
    from False have "?u \<noteq> []" by (metis dropWhile.simps(1) rev.simps(1))
    then have "\<not> is_space (hd ?u)" by (rule hd_dropWhile)
    moreover from u False have "hd ?u = hd (rev ?v)" by (metis hd_append2 rev_is_Nil_conv)
    ultimately show ?thesis using False by (cases "rev ?v") auto
  qed
  then show ?thesis unfolding strip_def by simp
qed

lemma lower_char_fixed: "is_lower_alnum c \<or> c = CHR '' '' \<Longrightarrow> lower_char c = c"
  by (auto simp: lower_char_def is_lower_alnum_def Let_def)

lemma alnum_not_space: "is_lower_alnum c \<Longrightarrow> \<not> is_space c"
  by (auto simp: is_lower_alnum_def is_space_def Let_def)

lemma normalize_text_chars:
  "c \<in> set (normalize_text v) \<Longrightarrow> is_lower_alnum c \<or> c = CHR '' ''"
proof -
  assume c: "c \<in> set (normalize_text v)"
  obtain pre post where "sub_runs is_space (CHR '' '') (map (\<lambda>c. if is_lower_alnum c \<or> is_space c then c else CHR '' '') (lower v)) = pre @ normalize_text v @ post"
    unfolding normalize_text_def Let_def using strip_decomp by blast
  with c have "c \<in> set (sub_runs is_space (CHR '' '') (map (\<lambda>c. if is_lower_alnum c \<or> is_space c then c else CHR '' '') (lower v)))"
    by simp
  from set_sub_runs[OF this] show ?thesis by (auto split: if_splits)
qed

lemma normalize_text_single_spaced: "single_spaced (normalize_text v)"
proof -
  obtain pre post where "sub_runs is_space (CHR '' '') (map (\<lambda>c. if is_lower_alnum c \<or> is_space c then c else CHR '' '') (lower v)) = pre @ normalize_text v @ post"
    unfolding normalize_text_def Let_def using strip_decomp by blast
  then show ?thesis
    by (metis single_spaced_sub_runs single_spaced_append1 single_spaced_append2)
qed

text \<open>
  C8: \<open>normalize_text\<close> is idempotent: normalizing an already normalized string changes nothing.
\<close>

theorem normalize_text_idempotent: "normalize_text (normalize_text x) = normalize_text x"
proof -
  let ?r = "normalize_text x"
  have chars: "\<forall>c\<in>set ?r. is_lower_alnum c \<or> c = CHR '' ''"
    using normalize_text_chars by blast
  then have l: "lower ?r = ?r"
    unfolding lower_def by (simp add: lower_char_fixed map_idI)
  have m: "map (\<lambda>c. if is_lower_alnum c \<or> is_space c then c else CHR '' '') ?r = ?r"
    using chars by (intro map_idI) auto
  have "\<forall>c\<in>set ?r. is_space c \<longrightarrow> c = CHR '' ''"
    using chars alnum_not_space by blast
  then have s: "sub_runs is_space (CHR '' '') ?r = ?r"
    using normalize_text_single_spaced sub_runs_fixed by blast
  have st: "strip ?r = ?r"
    unfolding normalize_text_def Let_def by (rule strip_strip)
  show ?thesis
    by (subst (1) normalize_text_def) (simp add: l m s st)
qed

section \<open>Download filenames\<close>

lemma length_sub_runs: "length (sub_runs cls rep s) \<le> length s"
proof (induction cls rep s rule: sub_runs.induct)
  case (1 cls rep) show ?case by simp
next
  case (2 cls rep c cs)
  have "length (dropWhile cls cs) \<le> length cs" by (rule length_dropWhile_le)
  with 2 show ?case by (auto split: if_splits)
qed

lemma length_strip_chars: "length (strip_chars c s) \<le> length s"
proof -
  have "length (strip_chars c s) \<le> length (dropWhile (\<lambda>x. x = c) s)"
    unfolding strip_chars_def using length_dropWhile_le[of "\<lambda>x. x = c" "rev (dropWhile (\<lambda>x. x = c) s)"] by simp
  also have "\<dots> \<le> length s" by (rule length_dropWhile_le)
  finally show ?thesis .
qed

lemma sanitize_take: "sanitize_filename raw = take 140 (with_extension raw)"
  by (simp add: sanitize_filename_def with_extension_def Let_def)

lemma endswith_append: "endswith (xs @ ys) ys"
  by (simp add: endswith_def)

lemma lower_pdf: "lower (xs @ ''.pdf'') = lower xs @ ''.pdf''"
  by (simp add: lower_def lower_char_def)

lemma with_extension_ends: "endswith (lower (with_extension raw)) ''.pdf''"
  unfolding with_extension_def Let_def
  by (simp only: lower_pdf endswith_append split: if_split) simp

lemma with_extension_nonempty: "with_extension raw \<noteq> []"
  by (simp add: with_extension_def Let_def)

lemma with_extension_length: "length (with_extension raw) \<le> max (length raw) 5 + 4"
proof -
  have "length (strip_chars (CHR ''_'') (sub_runs (\<lambda>c. \<not> is_filename_char c) (CHR ''_'') raw)) \<le> length raw"
    using length_strip_chars length_sub_runs le_trans by blast
  then show ?thesis by (auto simp: with_extension_def Let_def)
qed

lemma sanitize_filename_chars:
  assumes "c \<in> set (sanitize_filename raw)"
  shows "is_filename_char c"
proof -
  let ?s = "sub_runs (\<lambda>c. \<not> is_filename_char c) (CHR ''_'') raw"
  have u: "is_filename_char (CHR ''_'')" by (simp add: is_filename_char_def)
  have s: "is_filename_char x" if "x \<in> set ?s" for x
    using set_sub_runs[OF that] u by auto
  have "set (strip_chars (CHR ''_'') ?s) \<subseteq> set ?s"
  proof
    fix x assume "x \<in> set (strip_chars (CHR ''_'') ?s)"
    then have "x \<in> set (dropWhile (\<lambda>x. x = CHR ''_'') (rev (dropWhile (\<lambda>x. x = CHR ''_'') ?s)))"
      by (simp add: strip_chars_def)
    then have "x \<in> set (rev (dropWhile (\<lambda>x. x = CHR ''_'') ?s))" by (rule set_dropWhileD)
    then have "x \<in> set (dropWhile (\<lambda>x. x = CHR ''_'') ?s)" by simp
    then show "x \<in> set ?s" by (rule set_dropWhileD)
  qed
  with s have st: "is_filename_char x" if "x \<in> set (strip_chars (CHR ''_'') ?s)" for x
    using that by blast
  have p: "is_filename_char x" if "x \<in> set ''paper'' \<or> x \<in> set ''.pdf''" for x
    using that by (auto simp: is_filename_char_def)
  have "is_filename_char x" if "x \<in> set (with_extension raw)" for x
    using that st p unfolding with_extension_def Let_def by (auto split: if_splits)
  moreover from assms have "c \<in> set (with_extension raw)"
    unfolding sanitize_take by (rule in_set_takeD)
  ultimately show ?thesis by blast
qed

text \<open>
  What holds of every input: the sanitized filename is non-empty, at most 140 characters
  long and made of characters of \<open>[a-zA-Z0-9._-]\<close> only; when the input has at most 136
  characters, or the result is shorter than 140 characters, nothing was cut off and the
  filename ends with \<open>.pdf\<close>, compared case-insensitively.
\<close>

lemma sanitize_filename_shape:
  "sanitize_filename raw \<noteq> [] \<and> length (sanitize_filename raw) \<le> 140 \<and>
   (length raw \<le> 136 \<or> length (sanitize_filename raw) < 140 \<longrightarrow>
      endswith (lower (sanitize_filename raw)) ''.pdf'')"
proof (intro conjI impI)
  show "sanitize_filename raw \<noteq> []"
    using with_extension_nonempty[of raw] by (simp add: sanitize_take)
  show "length (sanitize_filename raw) \<le> 140"
    by (simp add: sanitize_take)
  assume h: "length raw \<le> 136 \<or> length (sanitize_filename raw) < 140"
  have "length (with_extension raw) \<le> 140"
  proof (rule disjE[OF h])
    assume "length raw \<le> 136"
    with with_extension_length[of raw] show ?thesis by simp
  next
    assume "length (sanitize_filename raw) < 140"
    then show ?thesis by (simp add: sanitize_take)
  qed
  then have "sanitize_filename raw = with_extension raw" by (simp add: sanitize_take)
  then show "endswith (lower (sanitize_filename raw)) ''.pdf''"
    using with_extension_ends by simp
qed

lemma sanitize_filename_examples:
  "sanitize_filename ''My Paper'' = ''My_Paper.pdf'' \<and>
   sanitize_filename ''a.PDF'' = ''a.PDF'' \<and>
   sanitize_filename ''?!'' = ''paper.pdf''"
  by code_simp

text \<open>
  C2 (the sanitized filename always ends with the extension \<open>.pdf\<close>) does not hold of the
  code: \<open>_sanitize_filename\<close> appends \<open>.pdf\<close> and only then cuts the name to 140 characters,
  so a title of 137 letters comes out as those letters followed by \<open>.pd\<close>. The result is
  140 characters long and ends with \<open>.pdf\<close> in no spelling.
\<close>

theorem sanitize_filename_cuts_extension:
  "sanitize_filename (replicate 137 (CHR ''a'')) = replicate 137 (CHR ''a'') @ ''.pd'' \<and>
   length (sanitize_filename (replicate 137 (CHR ''a''))) = 140 \<and>
   \<not> endswith (sanitize_filename (replicate 137 (CHR ''a''))) ''.pdf'' \<and>
   \<not> endswith (lower (sanitize_filename (replicate 137 (CHR ''a'')))) ''.pdf''"
  by code_simp

section \<open>Cross-source arbitration\<close>

text \<open>
  C3: when both sources have a match the strictly higher score wins and a tie goes to the
  Crossref match; a single match is returned as it is; no match gives none.
\<close>

theorem pick_primary_match_arbitration:
  "(score c < score e \<longrightarrow> pick_primary_match (Some c) (Some e) = Some e) \<and>
   (score e < score c \<longrightarrow> pick_primary_match (Some c) (Some e) = Some c) \<and>
   (score e = score c \<longrightarrow> pick_primary_match (Some c) (Some e) = Some c) \<and>
   pick_primary_match (Some c) None = Some c \<and>
   pick_primary_match None (Some e) = Some e \<and>
   pick_primary_match None None = None"
  by (simp add: pick_primary_match_def)

theorem pick_primary_match_arbitration_witness:
  "score epmc_example = score cr_example \<and>
   pick_primary_match (Some cr_example) (Some epmc_example) = Some cr_example \<and>
   score cr_example < score (epmc_example\<lparr>score := 0.95\<rparr>) \<and>
   pick_primary_match (Some cr_example) (Some (epmc_example\<lparr>score := 0.95\<rparr>))
     = Some (epmc_example\<lparr>score := 0.95\<rparr>) \<and>
   score (epmc_example\<lparr>score := 0.5\<rparr>) < score cr_example \<and>
   pick_primary_match (Some cr_example) (Some (epmc_example\<lparr>score := 0.5\<rparr>)) = Some cr_example"
  using pick_primary_match_arbitration[of cr_example epmc_example]
    pick_primary_match_arbitration[of cr_example "epmc_example\<lparr>score := 0.95\<rparr>"]
    pick_primary_match_arbitration[of cr_example "epmc_example\<lparr>score := 0.5\<rparr>"]
  by (simp add: cr_example_def epmc_example_def)

section \<open>The lookup endpoint\<close>

text \<open>
  C9: the lookup endpoint answers 404 exactly when the discovery result has no match and
  no candidate URL, and 200 otherwise; it stores a download entry for the first candidate
  URL under the new token when the list is non-empty, and leaves the cache untouched and
  reports no download when the list is empty.
\<close>

theorem lookup_status:
  "(status_code (fst (lookup request result now tok created cache)) = 404
      \<longleftrightarrow> match result = None \<and> candidate_urls result = []) \<and>
   (\<not> (match result = None \<and> candidate_urls result = []) \<longrightarrow>
      status_code (fst (lookup request result now tok created cache)) = 200) \<and>
   (candidate_urls result \<noteq> [] \<longrightarrow>
      (\<exists>entry. snd (lookup request result now tok created cache) tok = Some entry
         \<and> url entry = hd (candidate_urls result)) \<and>
      (\<exists>body. fst (lookup request result now tok created cache) = Inr body
         \<and> download body = Some \<lparr>token = tok, endpoint = ''/api/download/'' @ tok\<rparr>)) \<and>
   (candidate_urls result = [] \<longrightarrow>
      snd (lookup request result now tok created cache) = cache \<and>
      (\<forall>body. fst (lookup request result now tok created cache) = Inr body
         \<longrightarrow> download body = None))"
  by (auto simp: lookup_def status_code_def register_download_def Let_def
           split: list.splits option.splits prod.splits)

theorem lookup_status_witness:
  "candidate_urls result_example \<noteq> [] \<and>
   status_code (fst (lookup request_example result_example 10 ''t1'' 11 Map.empty)) = 200 \<and>
   (\<exists>entry. snd (lookup request_example result_example 10 ''t1'' 11 Map.empty) ''t1'' = Some entry
       \<and> url entry = ''https://example.org/a.pdf'') \<and>
   candidate_urls (result_example\<lparr>candidate_urls := []\<rparr>) = [] \<and>
   status_code (fst (lookup request_example (result_example\<lparr>candidate_urls := []\<rparr>) 10 ''t1'' 11 Map.empty)) = 404 \<and>
   snd (lookup request_example (result_example\<lparr>candidate_urls := []\<rparr>) 10 ''t1'' 11 Map.empty) = Map.empty"
  using lookup_status[of request_example result_example 10 "''t1''" 11 Map.empty]
    lookup_status[of request_example "result_example\<lparr>candidate_urls := []\<rparr>" 10 "''t1''" 11 Map.empty]
  by (simp add: result_example_def)

section \<open>The Crossref scorer\<close>

text \<open>
  C1, as the code has it: for a query whose normalized surname is non-empty, the Crossref
  scorer returns the title score plus 0.30 when the first listed author's normalized
  surname equals the query's, plus 0.10 when not the first but another listed author
  matches, the bare title score when authors are listed and none matches, and the title
  score minus 0.05 when the record lists no author.
\<close>

theorem score_crossref_item_branches:
  assumes "normalize_last_name q \<noteq> []"
  shows "(author item = [] \<longrightarrow> score_crossref_item item t q = crossref_base item t - 0.05) \<and>
    (author item \<noteq> [] \<and> normalize_last_name (author_family (hd (author item))) = normalize_last_name q
       \<longrightarrow> score_crossref_item item t q = crossref_base item t + 0.30) \<and>
    (author item \<noteq> [] \<and> normalize_last_name (author_family (hd (author item))) \<noteq> normalize_last_name q
       \<and> (\<exists>a\<in>set (author item). normalize_last_name (author_family a) = normalize_last_name q)
       \<longrightarrow> score_crossref_item item t q = crossref_base item t + 0.10) \<and>
    (author item \<noteq> [] \<and> (\<forall>a\<in>set (author item). normalize_last_name (author_family a) \<noteq> normalize_last_name q)
       \<longrightarrow> score_crossref_item item t q = crossref_base item t)"
  using assms
  by (cases "author item")
     (auto simp: score_crossref_item_def crossref_base_def Let_def list_ex_iff)

theorem score_crossref_item_branches_witness:
  "normalize_last_name ''Miller'' \<noteq> [] \<and>
   score_crossref_item item_miller ''Genes'' ''Miller'' = crossref_base item_miller ''Genes'' + 0.10 \<and>
   score_crossref_item item_wrong ''Genes'' ''Miller'' = crossref_base item_wrong ''Genes''"
  using score_crossref_item_branches[of "''Miller''" item_miller "''Genes''"]
        score_crossref_item_branches[of "''Miller''" item_wrong "''Genes''"]
  by code_simp

text \<open>
  C1 as stated fails in its last branch: a record whose only author is "Wrong", scored
  against the surname "Miller", gets the bare title score 1, not 1 - 0.05.
\<close>

theorem score_crossref_item_counterexample:
  "normalize_last_name ''Miller'' \<noteq> [] \<and> author item_wrong \<noteq> [] \<and>
   author item_wrong = [Some \<lparr>given = None, family = Some ''Wrong''\<rparr>] \<and>
   normalize_last_name ''Wrong'' \<noteq> normalize_last_name ''Miller'' \<and>
   score_crossref_item item_wrong ''Genes'' ''Miller'' = 1 \<and>
   score_crossref_item item_wrong ''Genes'' ''Miller'' \<noteq> crossref_base item_wrong ''Genes'' - 0.05"
  by code_simp

section \<open>The Europe PMC scorer\<close>

text \<open>
  C10, as the code has it: for a query whose normalized surname is non-empty, the Europe
  PMC scorer adds 0.30 to the title score exactly when the part of \<open>str(firstAuthor)\<close>,
  stripped of surrounding whitespace, that precedes its first space character normalizes
  to the query's normalized surname; otherwise it returns the bare title score.
\<close>

theorem score_europe_pmc_result_bonus:
  assumes "normalize_last_name q \<noteq> []"
  shows "score_europe_pmc_result r t q =
    (if normalize_last_name (split_first (strip (py_str (firstAuthor r)))) = normalize_last_name q
     then epmc_base r t + 0.30 else epmc_base r t)"
  using assms by (auto simp: score_europe_pmc_result_def epmc_base_def Let_def)

theorem score_europe_pmc_result_bonus_witness:
  "normalize_last_name ''van'' \<noteq> [] \<and>
   split_first (strip (py_str (firstAuthor result_berg))) = ''van'' \<and>
   score_europe_pmc_result result_berg ''Genes'' ''van'' = epmc_base result_berg ''Genes'' + 0.30 \<and>
   normalize_last_name ''van der Berg'' \<noteq> [] \<and>
   score_europe_pmc_result result_berg ''Genes'' ''van der Berg'' = epmc_base result_berg ''Genes''"
  using score_europe_pmc_result_bonus[of "''van''" result_berg "''Genes''"]
        score_europe_pmc_result_bonus[of "''van der Berg''" result_berg "''Genes''"]
  by code_simp

text \<open>
  C10 as stated fails when the first token is delimited by whitespace other than a space:
  for \<open>firstAuthor = "Smith\tJ"\<close> the first whitespace-separated token is "Smith", which
  equals the query surname "Smith", yet the code compares "Smith\tJ" and adds no bonus.
\<close>

theorem score_europe_pmc_result_counterexample:
  "normalize_last_name ''Smith'' \<noteq> [] \<and>
   normalize_last_name (spec_first_token (py_str (firstAuthor result_tab))) = normalize_last_name ''Smith'' \<and>
   score_europe_pmc_result result_tab ''Genes'' ''Smith'' = epmc_base result_tab ''Genes'' \<and>
   score_europe_pmc_result result_tab ''Genes'' ''Smith'' \<noteq> epmc_base result_tab ''Genes'' + 0.30"
  by code_simp

section \<open>Full-text extraction\<close>

lemma scan_full_text_urls_first:
  "(\<exists>i<length es. is_pdf_entry (es ! i) \<and> (\<forall>j<i. \<not> is_pdf_entry (es ! j)) \<and>
       scan_full_text_urls es = Some (entry_url (es ! i))) \<or>
   ((\<forall>e\<in>set es. \<not> is_pdf_entry e) \<and> scan_full_text_urls es = None)"
proof (induction es)
  case Nil
  show ?case by simp
next
  case (Cons e es)
  show ?case
  proof (cases "is_pdf_entry e")
    case True
    then have "scan_full_text_urls (e # es) = Some (entry_url e)"
      by (simp add: is_pdf_entry_def Let_def)
    with True have "is_pdf_entry ((e # es) ! 0) \<and> (\<forall>j<0. \<not> is_pdf_entry ((e # es) ! j)) \<and>
       scan_full_text_urls (e # es) = Some (entry_url ((e # es) ! 0))" by simp
    then show ?thesis by blast
  next
    case False
    then have s: "scan_full_text_urls (e # es) = scan_full_text_urls es"
      by (auto simp: is_pdf_entry_def Let_def)
    from Cons.IH show ?thesis
    proof
      assume "\<exists>i<length es. is_pdf_entry (es ! i) \<and> (\<forall>j<i. \<not> is_pdf_entry (es ! j)) \<and>
         scan_full_text_urls es = Some (entry_url (es ! i))"
      then obtain i where i: "i < length es" "is_pdf_entry (es ! i)" "\<forall>j<i. \<not> is_pdf_entry (es ! j)"
        "scan_full_text_urls es = Some (entry_url (es ! i))" by blast
      have "\<forall>j<Suc i. \<not> is_pdf_entry ((e # es) ! j)"
        using False i(3) by (auto simp: nth_Cons split: nat.splits)
      with i s have "Suc i < length (e # es) \<and> is_pdf_entry ((e # es) ! Suc i) \<and>
         (\<forall>j<Suc i. \<not> is_pdf_entry ((e # es) ! j)) \<and>
         scan_full_text_urls (e # es) = Some (entry_url ((e # es) ! Suc i))" by simp
      then show ?thesis by blast
    next
      assume "(\<forall>e\<in>set es. \<not> is_pdf_entry e) \<and> scan_full_text_urls es = None"
      with False s show ?thesis by simp
    qed
  qed
qed

text \<open>
  C6, as the code has it: full-text extraction returns the URL of the first entry of the
  full-text list that has a non-empty URL and whose style, lower-cased, is "pdf" or whose
  URL, lower-cased, ends in ".pdf"; when the list has no such entry it returns the viewer
  URL built from the pmcid stripped of surrounding whitespace if that is non-empty, and
  none otherwise.
\<close>

theorem extract_europe_pmc_pdf_url_first:
  "(\<exists>i<length (fullTextUrl r). is_pdf_entry (fullTextUrl r ! i) \<and>
       (\<forall>j<i. \<not> is_pdf_entry (fullTextUrl r ! j)) \<and>
       extract_europe_pmc_pdf_url r = Some (entry_url (fullTextUrl r ! i))) \<or>
   ((\<forall>e\<in>set (fullTextUrl r). \<not> is_pdf_entry e) \<and> extract_europe_pmc_pdf_url r = viewer_url r)"
  using scan_full_text_urls_first[of "fullTextUrl r"]
  by (auto simp: extract_europe_pmc_pdf_url_def viewer_url_def Let_def)

lemma extract_html_pdf:
  "\<not> is_pdf_entry (fullTextUrl result_html_pdf ! 0) \<and> is_pdf_entry (fullTextUrl result_html_pdf ! 1) \<and>
   extract_europe_pmc_pdf_url result_html_pdf = Some ''https://example.org/paper.pdf'' \<and>
   extract_europe_pmc_pdf_url (result_html_pdf\<lparr>fullTextUrl := []\<rparr>)
     = Some ''https://europepmc.org/articles/PMC9999999?pdf=render''"
  by code_simp

theorem extract_europe_pmc_pdf_url_first_witness:
  "\<not> is_pdf_entry (fullTextUrl result_html_pdf ! 0) \<and> is_pdf_entry (fullTextUrl result_html_pdf ! 1) \<and>
   extract_europe_pmc_pdf_url result_html_pdf = Some ''https://example.org/paper.pdf'' \<and>
   fullTextUrl (result_html_pdf\<lparr>fullTextUrl := []\<rparr>) = [] \<and>
   extract_europe_pmc_pdf_url (result_html_pdf\<lparr>fullTextUrl := []\<rparr>)
     = Some ''https://europepmc.org/articles/PMC9999999?pdf=render''"
  using extract_europe_pmc_pdf_url_first[of result_html_pdf]
        extract_europe_pmc_pdf_url_first[of "result_html_pdf\<lparr>fullTextUrl := []\<rparr>"]
        extract_html_pdf
  by simp

text \<open>
  C6 as stated fails: an entry tagged "pdf" whose URL is empty is skipped, so the first
  entry whose style is "pdf" is not the one returned; and a pmcid made of blanks gives no
  viewer URL.
\<close>

theorem extract_europe_pmc_pdf_url_counterexample:
  "List.find spec_is_pdf_entry (fullTextUrl result_empty_url)
     = Some (Some \<lparr>ft_url = Some [], documentStyle = Some ''pdf''\<rparr>) \<and>
   extract_europe_pmc_pdf_url result_empty_url = Some ''https://example.org/b.pdf'' \<and>
   extract_europe_pmc_pdf_url (result_empty_url\<lparr>fullTextUrl := [], pmcid := Some ''  ''\<rparr>) = None"
  by code_simp

section \<open>Per-source selection\<close>

lemma pick_loop_result:
  "pick_loop sc items (b0, s0) = (b, s) \<Longrightarrow>
   (\<forall>x\<in>set items. sc x \<le> s) \<and> s0 \<le> s \<and>
   ((b, s) = (b0, s0) \<or>
    (\<exists>i<length items. b = Some (items ! i) \<and> s = sc (items ! i) \<and> s0 < s \<and>
        (\<forall>j<i. sc (items ! j) < s)))"
proof (induction items arbitrary: b0 s0)
  case Nil
  then show ?case by simp
next
  case (Cons x xs)
  show ?case
  proof (cases "sc x > s0")
    case True
    with Cons.prems have r: "pick_loop sc xs (Some x, sc x) = (b, s)" by simp
    from Cons.IH[OF r] have all: "\<forall>y\<in>set xs. sc y \<le> s" and le: "sc x \<le> s"
      and d: "(b, s) = (Some x, sc x) \<or>
        (\<exists>i<length xs. b = Some (xs ! i) \<and> s = sc (xs ! i) \<and> sc x < s \<and> (\<forall>j<i. sc (xs ! j) < s))"
      by blast+
    from d have "\<exists>i<length (x # xs). b = Some ((x # xs) ! i) \<and> s = sc ((x # xs) ! i) \<and> s0 < s \<and>
        (\<forall>j<i. sc ((x # xs) ! j) < s)"
    proof
      assume "(b, s) = (Some x, sc x)"
      with True have "0 < length (x # xs) \<and> b = Some ((x # xs) ! 0) \<and> s = sc ((x # xs) ! 0) \<and> s0 < s \<and>
        (\<forall>j<0. sc ((x # xs) ! j) < s)" by simp
      then show ?thesis by blast
    next
      assume "\<exists>i<length xs. b = Some (xs ! i) \<and> s = sc (xs ! i) \<and> sc x < s \<and> (\<forall>j<i. sc (xs ! j) < s)"
      then obtain i where i: "i < length xs" "b = Some (xs ! i)" "s = sc (xs ! i)" "sc x < s"
        "\<forall>j<i. sc (xs ! j) < s" by blast
      have "\<forall>j<Suc i. sc ((x # xs) ! j) < s"
        using i(4,5) by (auto simp: nth_Cons split: nat.splits)
      with i True have "Suc i < length (x # xs) \<and> b = Some ((x # xs) ! Suc i) \<and> s = sc ((x # xs) ! Suc i) \<and> s0 < s \<and>
        (\<forall>j<Suc i. sc ((x # xs) ! j) < s)" by simp
      then show ?thesis by blast
    qed
    with all le True show ?thesis by auto
  next
    case False
    with Cons.prems have r: "pick_loop sc xs (b0, s0) = (b, s)" by simp
    from Cons.IH[OF r] have all: "\<forall>y\<in>set xs. sc y \<le> s" and le: "s0 \<le> s"
      and d: "(b, s) = (b0, s0) \<or>
        (\<exists>i<length xs. b = Some (xs ! i) \<and> s = sc (xs ! i) \<and> s0 < s \<and> (\<forall>j<i. sc (xs ! j) < s))"
      by blast+
    from d have "(b, s) = (b0, s0) \<or> (\<exists>i<length (x # xs). b = Some ((x # xs) ! i) \<and> s = sc ((x # xs) ! i) \<and> s0 < s \<and>
        (\<forall>j<i. sc ((x # xs) ! j) < s))"
    proof
      assume "(b, s) = (b0, s0)" then show ?thesis by simp
    next
      assume "\<exists>i<length xs. b = Some (xs ! i) \<and> s = sc (xs ! i) \<and> s0 < s \<and> (\<forall>j<i. sc (xs ! j) < s)"
      then obtain i where i: "i < length xs" "b = Some (xs ! i)" "s = sc (xs ! i)" "s0 < s"
        "\<forall>j<i. sc (xs ! j) < s" by blast
      from False i(4) have "sc x < s" by simp
      then have "\<forall>j<Suc i. sc ((x # xs) ! j) < s"
        using i(5) by (auto simp: nth_Cons split: nat.splits)
      with i have "Suc i < length (x # xs) \<and> b = Some ((x # xs) ! Suc i) \<and> s = sc ((x # xs) ! Suc i) \<and> s0 < s \<and>
        (\<forall>j<Suc i. sc ((x # xs) ! j) < s)" by simp
      then show ?thesis by blast
    qed
    moreover from False le have "sc x \<le> s" by simp
    ultimately show ?thesis using all le by auto
  qed
qed

lemma pick_loop_selects:
  assumes "pick_loop sc items (None, -1) = (b, s)"
  shows "selects sc items (if s < 0.45 then (None, 0) else (b, s))"
proof -
  note r = pick_loop_result[OF assms]
  show ?thesis
  proof (cases "\<forall>x\<in>set items. sc x < 0.45")
    case True
    from r have "(b, s) = (None, -1) \<or> (\<exists>i<length items. s = sc (items ! i))" by blast
    with True have "s < 0.45" by (auto simp: all_set_conv_all_nth)
    with True show ?thesis by (simp add: selects_def)
  next
    case False
    then obtain x where x: "x \<in> set items" "\<not> sc x < 0.45" by blast
    with r have s: "\<not> s < 0.45" by fastforce
    with r have "\<exists>i<length items. b = Some (items ! i) \<and> s = sc (items ! i) \<and> (\<forall>j<i. sc (items ! j) < s)"
      by auto
    then obtain i where i: "i < length items" "b = Some (items ! i)" "s = sc (items ! i)"
      "\<forall>j<i. sc (items ! j) < s" by blast
    have "\<forall>j<length items. sc (items ! j) \<le> sc (items ! i)"
      using r i(3) by (auto simp: all_set_conv_all_nth)
    with i s False show ?thesis unfolding selects_def by auto
  qed
qed

text \<open>
  C4: for every candidate list, the empty list included, both per-source selectors return
  (none, 0) when the best combined score is below 0.45, and otherwise the first record
  attaining the maximum combined score together with that score.
\<close>

theorem pick_best_selects:
  "selects (\<lambda>item. score_crossref_item item t q) items (pick_best_crossref_item items t q) \<and>
   selects (\<lambda>result. score_europe_pmc_result result t q) results (pick_best_europe_pmc_result results t q)"
proof
  obtain b s where r: "pick_loop (\<lambda>item. score_crossref_item item t q) items (None, -1) = (b, s)"
    by (cases "pick_loop (\<lambda>item. score_crossref_item item t q) items (None, -1)") auto
  from pick_loop_selects[OF r] r
  show "selects (\<lambda>item. score_crossref_item item t q) items (pick_best_crossref_item items t q)"
    by (simp add: pick_best_crossref_item_def)
next
  obtain b s where r: "pick_loop (\<lambda>result. score_europe_pmc_result result t q) results (None, -1) = (b, s)"
    by (cases "pick_loop (\<lambda>result. score_europe_pmc_result result t q) results (None, -1)") auto
  from pick_loop_selects[OF r] r
  show "selects (\<lambda>result. score_europe_pmc_result result t q) results (pick_best_europe_pmc_result results t q)"
    by (simp add: pick_best_europe_pmc_result_def)
qed

lemma pick_best_examples:
  "pick_best_crossref_item [item_wrong, item_miller, item_miller] ''Genes'' ''Miller'' = (Some item_miller, 11/10) \<and>
   pick_best_crossref_item [] ''Genes'' ''Miller'' = (None, 0) \<and>
   pick_best_crossref_item [item_wrong] ''Totally different'' ''Miller'' = (None, 0) \<and>
   pick_best_europe_pmc_result [result_tab, result_berg] ''Genes'' ''van'' = (Some result_berg, 13/10)"
  by code_simp

theorem pick_best_selects_witness:
  "selects (\<lambda>item. score_crossref_item item ''Genes'' ''Miller'') [item_wrong, item_miller, item_miller]
      (Some item_miller, 11/10) \<and>
   selects (\<lambda>item. score_crossref_item item ''Genes'' ''Miller'') [] (None, 0) \<and>
   selects (\<lambda>result. score_europe_pmc_result result ''Genes'' ''van'') [result_tab, result_berg]
      (Some result_berg, 13/10)"
  using pick_best_selects[of "''Genes''" "''Miller''" "[item_wrong, item_miller, item_miller]" "[]"]
        pick_best_selects[of "''Genes''" "''Miller''" "[]" "[]"]
        pick_best_selects[of "''Genes''" "''van''" "[]" "[result_tab, result_berg]"]
        pick_best_examples
  by simp

section \<open>URL deduplication\<close>












section \<open>Title similarity\<close>

subsection \<open>The matched blocks fit into both sequences\<close>

lemma sizes_simps [simp]:
  "sizes [] = 0" "sizes ((i, j, k) # bs) = k + sizes bs" "sizes (xs @ ys) = sizes xs + sizes ys"
  by (simp_all add: sizes_def)

lemma sizes_insort: "sizes (insort x xs) = sizes [x] + sizes xs"
  by (induction xs) (auto simp: sizes_def)

lemma sizes_sort: "sizes (sort xs) = sizes xs"
proof (induction xs)
  case Nil show ?case by simp
next
  case (Cons x xs)
  have "sizes (sort (x # xs)) = sizes [x] + sizes (sort xs)"
    by (simp add: sizes_insort)
  with Cons show ?case by (simp add: sizes_def)
qed

lemma sizes_collapse: "sizes (collapse bs (i1, j1, k1) na) = sizes na + k1 + sizes bs"
  by (induction bs "(i1, j1, k1)" na arbitrary: i1 j1 k1 rule: collapse.induct) auto

lemma blocks_loop_room:
  "sizes (blocks_loop a b queue mb) \<le> sizes mb + a_room queue \<and>
   sizes (blocks_loop a b queue mb) \<le> sizes mb + b_room queue"
proof (induction a b queue mb rule: blocks_loop.induct)
  case (1 a b mb)
  show ?case by simp
next
  case (2 a b alo ahi blo bhi queue mb)
  obtain i j k where f: "find_longest_match a b alo ahi blo bhi = (i, j, k)"
    by (metis prod_cases3)
  show ?case
  proof (cases "k = 0")
    case True
    then have nk: "\<not> k \<noteq> 0" by simp
    have e: "blocks_loop a b ((alo, ahi, blo, bhi) # queue) mb = blocks_loop a b queue mb"
      using f True by simp
    from 2(2)[OF f[symmetric] refl nk] show ?thesis
      unfolding e by (simp add: a_room_def b_room_def)
  next
    case False
    note ih = 2(1)[OF f[symmetric] refl False]
    note bd = find_longest_match_inside[OF f False]
    let ?q = "(if i + k < ahi \<and> j + k < bhi then [(i + k, ahi, j + k, bhi)] else []) @
             (if alo < i \<and> blo < j then [(alo, i, blo, j)] else []) @ queue"
    have ra: "a_room ?q + k \<le> a_room ((alo, ahi, blo, bhi) # queue)"
      using bd by (auto simp: a_room_def)
    have rb: "b_room ?q + k \<le> b_room ((alo, ahi, blo, bhi) # queue)"
      using bd by (auto simp: b_room_def)
    have e: "blocks_loop a b ((alo, ahi, blo, bhi) # queue) mb = blocks_loop a b ?q (mb @ [(i, j, k)])"
      using f False by simp
    from ih ra rb show ?thesis unfolding e by simp
  qed
qed

lemma matches_le:
  "sizes (get_matching_blocks a b) \<le> length a \<and> sizes (get_matching_blocks a b) \<le> length b"
  using blocks_loop_room[of a b "[(0, length a, 0, length b)]" "[]"]
  by (simp add: get_matching_blocks_def Let_def sizes_collapse sizes_sort a_room_def b_room_def)

lemma ratio_range: "0 \<le> ratio a b \<and> ratio a b \<le> 1"
proof -
  have s: "sum_list (map (\<lambda>(i, j, k). k) (get_matching_blocks a b)) = sizes (get_matching_blocks a b)"
    by (simp add: sizes_def)
  from matches_le[of a b] have "2 * sizes (get_matching_blocks a b) \<le> length a + length b" by simp
  then have "2 * real (sizes (get_matching_blocks a b)) \<le> real (length a + length b)"
    by (metis of_nat_le_iff of_nat_mult of_nat_numeral)
  then show ?thesis
    unfolding ratio_def Let_def s by (auto simp: divide_le_eq_1)
qed

subsection \<open>A sequence matches itself completely\<close>

lemma matches_at_sym: "matches_at a i j = matches_at a j i"
  by (auto simp: matches_at_def)

lemma matches_at_diag: "matches_at a i j \<Longrightarrow> matches_at a i i"
  by (auto simp: matches_at_def)

lemma cell_0 [simp]: "cell a i 0 = 1"
  by (cases i) auto

lemma cell_sym: "cell a i j = cell a j i"
  by (induction a i j rule: cell.induct) (auto simp: matches_at_sym)

lemma run_len_sym: "run_len a i j = run_len a j i"
  using cell_sym[of a i j] matches_at_sym[of a i j] by (simp add: run_len_def)

lemma cell_le_diag: "cell a i j \<le> cell a i i"
proof (induction a i j rule: cell.induct)
  case (1 a j) show ?case by simp
next
  case (2 a i) show ?case by simp
next
  case (3 a i j)
  then show ?case using matches_at_diag[of a i j] by auto
qed

lemma run_len_le_diag: "run_len a i j \<le> run_len a i i"
  using cell_le_diag[of a i j] matches_at_diag[of a i j] by (simp add: run_len_def)

lemma run_len_le_diag2: "run_len a i j \<le> run_len a j j"
  using run_len_le_diag[of a j i] by (simp add: run_len_sym)

lemma set_b2j: "i < length a \<Longrightarrow> set (b2j a (a ! i)) = {j. matches_at a i j}"
  by (auto simp: b2j_def matches_at_def)

lemma sorted_b2j: "sorted (b2j a c) \<and> distinct (b2j a c)"
  by (simp add: b2j_def sorted_wrt_filter)

lemma prev_ok_empty: "prev_ok a 0 Map.empty"
  by (simp add: prev_ok_def get_prev_def)

lemma prev_ok_next:
  "prev_ok a (Suc i) (\<lambda>j. if matches_at a i j then Some (cell a i j) else None)"
  unfolding prev_ok_def
proof
  fix j
  show "get_prev (\<lambda>j. if matches_at a i j then Some (cell a i j) else None) j + 1 = cell a (Suc i) j"
    by (cases j) (simp_all add: get_prev_def)
qed

lemma inner_loop_same:
  assumes i: "i < length a" and prev: "prev_ok a i j2len"
  shows "sorted (pre @ js) \<Longrightarrow> distinct (pre @ js) \<Longrightarrow> set (pre @ js) = {j. matches_at a i j} \<Longrightarrow>
     \<forall>i'<i. run_len a i' i' \<le> bs \<Longrightarrow> \<forall>j\<in>set pre. run_len a i j \<le> bs \<Longrightarrow>
     inner_loop i 0 (length a) j2len js ((bi, bi, bs), (\<lambda>j. if j \<in> set pre then Some (cell a i j) else None))
       = ((bi', bj', bs'), new') \<Longrightarrow>
     bi' = bj' \<and> (\<forall>i'<i. run_len a i' i' \<le> bs') \<and> (\<forall>j\<in>set (pre @ js). run_len a i j \<le> bs') \<and>
     new' = (\<lambda>j. if j \<in> set (pre @ js) then Some (cell a i j) else None)"
proof (induction js arbitrary: pre bi bs)
  case Nil
  then show ?case by simp
next
  case (Cons j js)
  have m: "matches_at a i j" using Cons.prems(3) by auto
  then have jn: "\<not> j < 0" "\<not> length a \<le> j" by (auto simp: matches_at_def)
  define k where "k = get_prev j2len j + 1"
  have kc: "k = cell a i j" using prev by (simp add: k_def prev_ok_def)
  with m have kr: "k = run_len a i j" by (simp add: run_len_def)
  let ?new = "(\<lambda>j'. if j' \<in> set pre then Some (cell a i j') else None)"
  have newe: "?new(j \<mapsto> k) = (\<lambda>j'. if j' \<in> set (pre @ [j]) then Some (cell a i j') else None)"
    by (auto simp: kc fun_eq_iff)
  have step: "inner_loop i 0 (length a) j2len (j # js) ((bi, bi, bs), ?new) =
      inner_loop i 0 (length a) j2len js
        (if k > bs then (i + 1 - k, j + 1 - k, k) else (bi, bi, bs), ?new(j \<mapsto> k))"
    unfolding k_def by (rule inner_loop_step[OF jn])
  have s': "sorted ((pre @ [j]) @ js)" "distinct ((pre @ [j]) @ js)"
     "set ((pre @ [j]) @ js) = {j. matches_at a i j}"
    using Cons.prems(1,2,3) by simp_all
  show ?case
  proof (cases "k > bs")
    case True
    have "j = i"
    proof (rule ccontr)
      assume ne: "j \<noteq> i"
      show False
      proof (cases "j < i")
        case True
        with Cons.prems(4) have "run_len a j j \<le> bs" by simp
        with run_len_le_diag2[of a i j] kr \<open>k > bs\<close> show False by simp
      next
        case False
        with ne have lt: "i < j" by simp
        from matches_at_diag[OF m] Cons.prems(3) have "i \<in> set (pre @ j # js)" by blast
        moreover from Cons.prems(1) lt have "i \<notin> set (j # js)"
          by (auto simp: sorted_append)
        ultimately have "i \<in> set pre" by simp
        with Cons.prems(5) have "run_len a i i \<le> bs" by simp
        with run_len_le_diag[of a i j] kr \<open>k > bs\<close> show False by simp
      qed
    qed
    with True step Cons.prems(6) newe
    have r: "inner_loop i 0 (length a) j2len js ((i + 1 - k, i + 1 - k, k),
        (\<lambda>j'. if j' \<in> set (pre @ [j]) then Some (cell a i j') else None)) = ((bi', bj', bs'), new')"
      by simp
    have a4: "\<forall>i'<i. run_len a i' i' \<le> k" using Cons.prems(4) True by auto
    have a5: "\<forall>j'\<in>set (pre @ [j]). run_len a i j' \<le> k" using Cons.prems(5) True kr by auto
    from Cons.IH[OF s' a4 a5 r] show ?thesis by simp
  next
    case False
    with step Cons.prems(6) newe
    have r: "inner_loop i 0 (length a) j2len js ((bi, bi, bs),
        (\<lambda>j'. if j' \<in> set (pre @ [j]) then Some (cell a i j') else None)) = ((bi', bj', bs'), new')"
      by simp
    have a5: "\<forall>j'\<in>set (pre @ [j]). run_len a i j' \<le> bs" using Cons.prems(5) False kr by auto
    from Cons.IH[OF s' Cons.prems(4) a5 r] show ?thesis by simp
  qed
qed

lemma row_same:
  assumes i: "i < length a" and prev: "prev_ok a i j2len"
    and rows: "\<forall>i'<i. run_len a i' i' \<le> bs"
    and r: "inner_loop i 0 (length a) j2len (b2j a (a ! i)) ((bi, bi, bs), Map.empty) = ((bi', bj', bs'), new')"
  shows "bi' = bj' \<and> (\<forall>i'<Suc i. run_len a i' i' \<le> bs') \<and> prev_ok a (Suc i) new'"
proof -
  have e: "Map.empty = (\<lambda>j. if j \<in> set [] then Some (cell a i j) else None)" by simp
  have s: "sorted ([] @ b2j a (a ! i))" "distinct ([] @ b2j a (a ! i))"
    "set ([] @ b2j a (a ! i)) = {j. matches_at a i j}"
    using sorted_b2j[of a "a ! i"] set_b2j[OF i] by simp_all
  have p5: "\<forall>j\<in>set []. run_len a i j \<le> bs" by simp
  note res = inner_loop_same[OF i prev s rows p5 r[unfolded e]]
  from res have d: "bi' = bj'" and rs: "\<forall>i'<i. run_len a i' i' \<le> bs'"
    and cur: "\<forall>j\<in>set (b2j a (a ! i)). run_len a i j \<le> bs'"
    and n: "new' = (\<lambda>j. if j \<in> set (b2j a (a ! i)) then Some (cell a i j) else None)"
    by simp_all
  have "run_len a i i \<le> bs'"
  proof (cases "matches_at a i i")
    case True
    with set_b2j[OF i] cur show ?thesis by simp
  next
    case False then show ?thesis by (simp add: run_len_def)
  qed
  with rs have a: "\<forall>i'<Suc i. run_len a i' i' \<le> bs'" by (auto simp: less_Suc_eq)
  have "new' = (\<lambda>j. if matches_at a i j then Some (cell a i j) else None)"
    using n set_b2j[OF i] by auto
  with prev_ok_next[of a i] have "prev_ok a (Suc i) new'" by simp
  with d a show ?thesis by blast
qed

lemma outer_loop_same:
  "i \<le> length a \<Longrightarrow> prev_ok a i j2len \<Longrightarrow> \<forall>i'<i. run_len a i' i' \<le> bs \<Longrightarrow>
   fst (outer_loop a a 0 (length a) [i..<length a] ((bi, bi, bs), j2len)) = (bi', bj', bs') \<Longrightarrow>
   bi' = bj'"
proof (induction "length a - i" arbitrary: i j2len bs bi)
  case 0
  then show ?case by simp
next
  case (Suc d)
  then have i: "i < length a" by simp
  then have u: "[i..<length a] = i # [Suc i..<length a]" by (rule upt_conv_Cons)
  obtain ci cj cs new where r: "inner_loop i 0 (length a) j2len (b2j a (a ! i)) ((bi, bi, bs), Map.empty)
      = ((ci, cj, cs), new)" by (metis prod_cases3 surj_pair)
  note row = row_same[OF i Suc.prems(2) Suc.prems(3) r]
  from row have c: "ci = cj" by simp
  have o: "fst (outer_loop a a 0 (length a) [Suc i..<length a] ((ci, ci, cs), new)) = (bi', bj', bs')"
    using Suc.prems(4) r c unfolding u by simp
  have d: "d = length a - Suc i" using Suc.hyps(2) by simp
  from i have le: "Suc i \<le> length a" by simp
  from Suc.hyps(1)[OF d le _ _ o] row show ?case by blast
qed

lemma extend_left_diag:
  "extend_left (\<lambda>c. \<not> isbjunk c) a a 0 0 (d, d, s) = (0, 0, d + s)"
proof (induction d arbitrary: s)
  case 0
  show ?case by (subst extend_left.simps) simp
next
  case (Suc d)
  have "extend_left (\<lambda>c. \<not> isbjunk c) a a 0 0 (Suc d, Suc d, s)
      = extend_left (\<lambda>c. \<not> isbjunk c) a a 0 0 (d, d, s + 1)"
    by (subst extend_left.simps) (simp add: isbjunk_def)
  with Suc[of "s + 1"] show ?case by simp
qed

lemma extend_right_diag:
  "s \<le> n \<Longrightarrow> extend_right (\<lambda>c. \<not> isbjunk c) a a n n (0, 0, s) = (0, 0, n)"
proof (induction "n - s" arbitrary: s)
  case 0
  then show ?case by (subst extend_right.simps) simp
next
  case (Suc d)
  then have lt: "s < n" by simp
  then have "extend_right (\<lambda>c. \<not> isbjunk c) a a n n (0, 0, s)
      = extend_right (\<lambda>c. \<not> isbjunk c) a a n n (0, 0, s + 1)"
    by (subst extend_right.simps) (simp add: isbjunk_def)
  moreover have "extend_right (\<lambda>c. \<not> isbjunk c) a a n n (0, 0, s + 1) = (0, 0, n)"
    using Suc.hyps(2) lt by (intro Suc.hyps(1)) simp_all
  ultimately show ?case by simp
qed

lemma find_longest_match_same:
  "find_longest_match a a 0 (length a) 0 (length a) = (0, 0, length a)"
proof -
  obtain d e s where o: "fst (outer_loop a a 0 (length a) [0..<length a] ((0, 0, 0), Map.empty)) = (d, e, s)"
    by (metis prod_cases3)
  have "d = e"
    by (rule outer_loop_same[OF _ prev_ok_empty _ o]) simp_all
  have b: "0 \<le> d \<and> d + s \<le> length a \<and> 0 \<le> e \<and> e + s \<le> length a"
    by (rule outer_loop_bounds[OF _ _ _ _ o]) (auto simp: nth_upt)
  have l: "extend_left (\<lambda>c. \<not> isbjunk c) a a 0 0 (d, e, s) = (0, 0, d + s)"
    using \<open>d = e\<close> extend_left_diag by simp
  have r: "extend_right (\<lambda>c. \<not> isbjunk c) a a (length a) (length a) (0, 0, d + s) = (0, 0, length a)"
    using b by (intro extend_right_diag) simp
  have l2: "extend_left isbjunk a a 0 0 (0, 0, length a) = (0, 0, length a)"
    by (subst extend_left.simps) simp
  have r2: "extend_right isbjunk a a (length a) (length a) (0, 0, length a) = (0, 0, length a)"
    by (subst extend_right.simps) simp
  show ?thesis
    by (simp add: find_longest_match_def Let_def o l r l2 r2)
qed

lemma get_matching_blocks_same:
  "sizes (get_matching_blocks a a) = length a"
proof (cases "length a = 0")
  case True
  then have "find_longest_match a a 0 (length a) 0 (length a) = (0, 0, 0)"
    using find_longest_match_same[of a] by simp
  then have "blocks_loop a a [(0, length a, 0, length a)] [] = []"
    by simp
  with True show ?thesis
    by (simp add: get_matching_blocks_def Let_def sizes_collapse sizes_sort)
next
  case False
  then have "blocks_loop a a [(0, length a, 0, length a)] [] = [(0, 0, length a)]"
    by (simp add: find_longest_match_same)
  then show ?thesis
    by (simp add: get_matching_blocks_def Let_def sizes_collapse sizes_sort)
qed

lemma ratio_same: "ratio a a = 1"
proof -
  have s: "sum_list (map (\<lambda>(i, j, k). k) (get_matching_blocks a a)) = length a"
    using get_matching_blocks_same[of a] by (simp add: sizes_def)
  show ?thesis unfolding ratio_def Let_def s by simp
qed

text \<open>
  C7: \<open>title_similarity\<close> always returns a value between 0 and 1; it returns 1 whenever
  both arguments are the same non-empty string, and 0 whenever either argument is empty.
\<close>

theorem title_similarity_properties:
  "0 \<le> title_similarity l r \<and> title_similarity l r \<le> 1 \<and>
   (l \<noteq> [] \<longrightarrow> title_similarity l l = 1) \<and>
   title_similarity [] r = 0 \<and> title_similarity l [] = 0"
  using ratio_range[of "normalize_text l" "normalize_text r"] ratio_same[of "normalize_text l"]
  by (simp add: title_similarity_def)

theorem title_similarity_properties_witness:
  "''Genes'' \<noteq> [] \<and> title_similarity ''Genes'' ''Genes'' = 1 \<and>
   0 \<le> title_similarity ''Genes'' ''Genome'' \<and> title_similarity ''Genes'' ''Genome'' \<le> 1 \<and>
   title_similarity [] ''Genome'' = 0"
  using title_similarity_properties[of "''Genes''" "''Genome''"] by simp

end
